theory Spec2Isabelle
  imports Main "HOL-Library.Word"
begin

section \<open>Sporadic-server refill queue of a scheduling context\<close>

text \<open>
  A shallow embedding of the refill engine (\<open>kernel/sporadic.h\<close> and the sporadic
  server source file).  The model follows a 64-bit, non-SMP release build:
  \<^item> \<open>ticks_t\<close> is \<open>uint64_t\<close> and \<open>word_t\<close> is a 64-bit machine word; every
    \<open>+\<close>, \<open>-\<close> and \<open>*\<close> below wraps around \<open>2 ^ 64\<close> exactly as in C;
  \<^item> \<open>assert\<close> and the \<open>REFILL_SANITY_*\<close> macros expand to nothing in a release build,
    so they are not branches of the model; the predicates they would check are
    embedded separately and are what the theorems are about;
  \<^item> the refill buffer that follows the \<open>sched_context_t\<close> header in memory
    (\<open>REFILL_BUFFER\<close>) is the field \<open>scRefills\<close>, a store from slot index to refill;
  \<^item> a C function that mutates \<open>*sc\<close> takes the scheduling context and returns the
    updated one.
\<close>

type_synonym ticks_t = "64 word"
type_synonym word_t = "64 word"

record refill_t =
  rTime :: ticks_t
  rAmount :: ticks_t

record sched_context_t =
  scPeriod :: ticks_t
  scBudget :: ticks_t
  scRefillMax :: word_t
  scRefillHead :: word_t
  scRefillCount :: word_t
  scRefills :: "word_t \<Rightarrow> refill_t"

text \<open>
  What the engine takes from the rest of the kernel and is not part of the sources at
  hand is a parameter: the value of \<open>getKernelWcetTicks()\<close>, the configuration constant
  \<open>CONFIG_KERNEL_WCET_SCALE\<close> and the predicate \<open>isRoundRobin\<close>.
\<close>

record platform_t =
  kernelWcetTicks :: ticks_t
  kernelWcetScale :: ticks_t
  isRoundRobin :: "sched_context_t \<Rightarrow> bool"

text \<open>The per-node kernel globals the engine reads (\<open>ksCurTime\<close>) and writes (\<open>ksReprogram\<close>).\<close>

record node_state_t =
  ksCurTime :: ticks_t
  ksReprogram :: bool

definition MIN_BUDGET :: "platform_t \<Rightarrow> ticks_t" where
  "MIN_BUDGET plat = 2 * kernelWcetTicks plat * kernelWcetScale plat"

definition MIN_SC_BUDGET :: "platform_t \<Rightarrow> ticks_t" where
  "MIN_SC_BUDGET plat = 2 * MIN_BUDGET plat"

subsection \<open>Ring-buffer primitives\<close>

definition refill_next :: "sched_context_t \<Rightarrow> word_t \<Rightarrow> word_t" where
  "refill_next sc index = (if index = scRefillMax sc - 1 then 0 else index + 1)"

definition refill_size :: "sched_context_t \<Rightarrow> word_t" where
  "refill_size sc = scRefillCount sc"

definition refill_full :: "sched_context_t \<Rightarrow> bool" where
  "refill_full sc = (scRefillCount sc = scRefillMax sc)"

definition refill_empty :: "sched_context_t \<Rightarrow> bool" where
  "refill_empty sc = (scRefillCount sc = 0)"

definition refill_tail_index :: "sched_context_t \<Rightarrow> word_t" where
  "refill_tail_index sc =
     (let index = scRefillHead sc + scRefillCount sc - 1
      in if index \<ge> scRefillMax sc then index - scRefillMax sc else index)"

text \<open>
  \<open>REFILL_INDEX(sc, index)\<close> is an lvalue: \<open>refill_index\<close> reads it and
  \<open>refill_index_update\<close> writes through it.  \<open>REFILL_HEAD\<close> and \<open>REFILL_TAIL\<close> are the
  same at the head index and at \<open>refill_tail_index\<close>.
\<close>

definition refill_index :: "sched_context_t \<Rightarrow> word_t \<Rightarrow> refill_t" where
  "refill_index sc index = scRefills sc index"

definition refill_index_update ::
  "sched_context_t \<Rightarrow> word_t \<Rightarrow> (refill_t \<Rightarrow> refill_t) \<Rightarrow> sched_context_t" where
  "refill_index_update sc index f = sc\<lparr>scRefills := (scRefills sc)(index := f (scRefills sc index))\<rparr>"

definition REFILL_HEAD :: "sched_context_t \<Rightarrow> refill_t" where
  "REFILL_HEAD sc = refill_index sc (scRefillHead sc)"

definition REFILL_TAIL :: "sched_context_t \<Rightarrow> refill_t" where
  "REFILL_TAIL sc = refill_index sc (refill_tail_index sc)"

definition REFILL_HEAD_update :: "sched_context_t \<Rightarrow> (refill_t \<Rightarrow> refill_t) \<Rightarrow> sched_context_t" where
  "REFILL_HEAD_update sc f = refill_index_update sc (scRefillHead sc) f"

definition REFILL_TAIL_update :: "sched_context_t \<Rightarrow> (refill_t \<Rightarrow> refill_t) \<Rightarrow> sched_context_t" where
  "REFILL_TAIL_update sc f = refill_index_update sc (refill_tail_index sc) f"

subsection \<open>Queries\<close>

definition refill_capacity :: "sched_context_t \<Rightarrow> ticks_t \<Rightarrow> ticks_t" where
  "refill_capacity sc usage =
     (if usage > rAmount (REFILL_HEAD sc) then 0 else rAmount (REFILL_HEAD sc) - usage)"

definition refill_sufficient :: "platform_t \<Rightarrow> sched_context_t \<Rightarrow> ticks_t \<Rightarrow> bool" where
  "refill_sufficient plat sc usage = (refill_capacity sc usage \<ge> MIN_BUDGET plat)"

definition refill_ready :: "platform_t \<Rightarrow> node_state_t \<Rightarrow> sched_context_t \<Rightarrow> bool" where
  "refill_ready plat ns sc = (rTime (REFILL_HEAD sc) \<le> ksCurTime ns + kernelWcetTicks plat)"

definition sc_active :: "sched_context_t \<Rightarrow> bool" where
  "sc_active sc = (scRefillMax sc > 0)"

subsection \<open>Queue mutators\<close>

text \<open>\<open>refill_pop_head\<close> returns the popped refill together with the updated context.\<close>

definition refill_pop_head :: "sched_context_t \<Rightarrow> refill_t \<times> sched_context_t" where
  "refill_pop_head sc =
     (let refill = REFILL_HEAD sc;
          sc = sc\<lparr>scRefillHead := refill_next sc (scRefillHead sc)\<rparr>;
          sc = sc\<lparr>scRefillCount := scRefillCount sc - 1\<rparr>
      in (refill, sc))"

definition refill_add_tail :: "sched_context_t \<Rightarrow> refill_t \<Rightarrow> sched_context_t" where
  "refill_add_tail sc refill =
     (let sc = sc\<lparr>scRefillCount := scRefillCount sc + 1\<rparr>
      in REFILL_TAIL_update sc (\<lambda>_. refill))"

definition refill_new ::
  "node_state_t \<Rightarrow> sched_context_t \<Rightarrow> word_t \<Rightarrow> ticks_t \<Rightarrow> ticks_t \<Rightarrow> sched_context_t" where
  "refill_new ns sc max_refills budget period =
     (let sc = sc\<lparr>scPeriod := period\<rparr>;
          sc = sc\<lparr>scBudget := budget\<rparr>;
          sc = sc\<lparr>scRefillHead := 0\<rparr>;
          sc = sc\<lparr>scRefillCount := 1\<rparr>;
          sc = sc\<lparr>scRefillMax := max_refills\<rparr>;
          sc = REFILL_HEAD_update sc (\<lambda>r. r\<lparr>rAmount := budget\<rparr>);
          sc = REFILL_HEAD_update sc (\<lambda>r. r\<lparr>rTime := ksCurTime ns\<rparr>)
      in sc)"

definition schedule_used :: "platform_t \<Rightarrow> sched_context_t \<Rightarrow> refill_t \<Rightarrow> sched_context_t" where
  "schedule_used plat sc new =
     (if refill_empty sc then refill_add_tail sc new
      else if rAmount new < MIN_BUDGET plat \<and> \<not> refill_full sc
              \<and> rAmount (REFILL_TAIL sc) + rAmount new \<ge> 2 * MIN_BUDGET plat
      then
        (let remainder = MIN_BUDGET plat - rAmount new;
             new = new\<lparr>rAmount := rAmount new + remainder\<rparr>;
             new = new\<lparr>rTime := rTime new - remainder\<rparr>;
             sc = REFILL_TAIL_update sc (\<lambda>r. r\<lparr>rAmount := rAmount r - remainder\<rparr>)
         in refill_add_tail sc new)
      else if rAmount new < MIN_BUDGET plat \<or> refill_full sc
      then
        (let sc = REFILL_TAIL_update sc (\<lambda>r. r\<lparr>rTime := rTime new - rAmount r\<rparr>);
             sc = REFILL_TAIL_update sc (\<lambda>r. r\<lparr>rAmount := rAmount r + rAmount new\<rparr>)
         in sc)
      else refill_add_tail sc new)"

definition refill_update ::
  "platform_t \<Rightarrow> node_state_t \<Rightarrow> sched_context_t \<Rightarrow> ticks_t \<Rightarrow> ticks_t \<Rightarrow> word_t \<Rightarrow> sched_context_t" where
  "refill_update plat ns sc new_period new_budget new_max_refills =
     (let sc = refill_index_update sc 0 (\<lambda>_. REFILL_HEAD sc);
          sc = sc\<lparr>scRefillHead := 0\<rparr>;
          sc = sc\<lparr>scRefillCount := 1\<rparr>;
          sc = sc\<lparr>scRefillMax := new_max_refills\<rparr>;
          sc = sc\<lparr>scPeriod := new_period\<rparr>;
          sc = sc\<lparr>scBudget := new_budget\<rparr>;
          sc = (if refill_ready plat ns sc
                then REFILL_HEAD_update sc (\<lambda>r. r\<lparr>rTime := ksCurTime ns\<rparr>) else sc)
      in if rAmount (REFILL_HEAD sc) \<ge> new_budget
         then REFILL_HEAD_update sc (\<lambda>r. r\<lparr>rAmount := new_budget\<rparr>)
         else
           (let unused = new_budget - rAmount (REFILL_HEAD sc);
                new = \<lparr>rTime = rTime (REFILL_HEAD sc) + new_period - unused, rAmount = unused\<rparr>
            in schedule_used plat sc new))"

text \<open>
  \<open>refill_budget_check\<close> works on the current scheduling context \<open>ksCurSC\<close>, which is
  passed and returned explicitly.
\<close>

definition refill_budget_check ::
  "platform_t \<Rightarrow> node_state_t \<Rightarrow> sched_context_t \<Rightarrow> ticks_t \<Rightarrow> sched_context_t" where
  "refill_budget_check plat ns sc usage =
     (let last_entry = rTime (REFILL_HEAD sc);
          used = \<lparr>rTime = last_entry + scPeriod sc, rAmount = usage\<rparr>
      in
        if \<not> refill_ready plat ns sc \<or> rAmount (REFILL_HEAD sc) < usage then
          (let sc = sc\<lparr>scRefillCount := 0\<rparr>;
               used = used\<lparr>rTime := rTime used + usage\<rparr>;
               used = used\<lparr>rAmount := scBudget sc\<rparr>
           in schedule_used plat sc used)
        else if usage = rAmount (REFILL_HEAD sc) then
          schedule_used plat (snd (refill_pop_head sc)) used
        else
          (let remnant = rAmount (REFILL_HEAD sc) - usage
           in
             if remnant \<ge> MIN_BUDGET plat then
               (let sc = REFILL_HEAD_update sc (\<lambda>r. r\<lparr>rAmount := remnant\<rparr>);
                    sc = REFILL_HEAD_update sc (\<lambda>r. r\<lparr>rTime := rTime r + usage\<rparr>)
                in schedule_used plat sc used)
             else
               (let sc = snd (refill_pop_head sc)
                in
                  if refill_empty sc then
                    (let used = used\<lparr>rTime := rTime used - remnant\<rparr>;
                         used = used\<lparr>rAmount := rAmount used + remnant\<rparr>
                     in schedule_used plat sc used)
                  else
                    (let sc = REFILL_HEAD_update sc (\<lambda>r. r\<lparr>rTime := rTime r - remnant\<rparr>);
                         sc = REFILL_HEAD_update sc (\<lambda>r. r\<lparr>rAmount := rAmount r + remnant\<rparr>)
                     in schedule_used plat sc used))))"

text \<open>
  The merging loop of \<open>refill_unblock_check\<close>.  The last component of the loop state
  counts how often the body ran to its end, that is, the pops; the C code has no such
  variable, it is there so that the number of iterations can be stated.
\<close>

function refill_unblock_check_loop ::
  "platform_t \<Rightarrow> node_state_t \<Rightarrow> sched_context_t \<Rightarrow> nat \<Rightarrow> sched_context_t \<times> nat" where
  "refill_unblock_check_loop plat ns sc iters =
     (if refill_size sc > 1 then
        (let amount = rAmount (REFILL_HEAD sc);
             tail = rTime (REFILL_HEAD sc) + amount
         in
           if rTime (refill_index sc (refill_next sc (scRefillHead sc))) \<le> tail then
             (let sc = snd (refill_pop_head sc);
                  sc = REFILL_HEAD_update sc (\<lambda>r. r\<lparr>rAmount := rAmount r + amount\<rparr>);
                  sc = REFILL_HEAD_update sc
                         (\<lambda>r. r\<lparr>rTime := ksCurTime ns + kernelWcetTicks plat\<rparr>)
              in refill_unblock_check_loop plat ns sc (Suc iters))
           else (sc, iters))
      else (sc, iters))"
  by pat_completeness auto
termination
proof (relation "measure (\<lambda>(plat, ns, sc, iters). unat (scRefillCount sc))", goal_cases)
  case 1
  show ?case by simp
next
  case (2 plat ns sc iters amount tail sc1 sc2 sc3)
  from 2(1) have "1 < scRefillCount sc"
    by (simp add: refill_size_def)
  then have "unat (scRefillCount sc - 1) < unat (scRefillCount sc)"
    by (simp add: word_less_nat_alt unat_sub word_le_nat_alt)
  with 2 show ?case
    by (simp add: refill_pop_head_def REFILL_HEAD_update_def refill_index_update_def Let_def)
qed

definition refill_unblock_check ::
  "platform_t \<Rightarrow> node_state_t \<Rightarrow> sched_context_t \<Rightarrow> node_state_t \<times> sched_context_t" where
  "refill_unblock_check plat ns sc =
     (if isRoundRobin plat sc then (ns, sc)
      else if refill_ready plat ns sc then
        (let ns' = ns\<lparr>ksReprogram := True\<rparr>;
             sc = REFILL_HEAD_update sc (\<lambda>r. r\<lparr>rTime := ksCurTime ns + kernelWcetTicks plat\<rparr>)
         in (ns', fst (refill_unblock_check_loop plat ns sc 0)))
      else (ns, sc))"

subsection \<open>The invariant checkers of debug builds\<close>

text \<open>
  Each traversal loop returns its result together with the number of times its body
  was entered (again a counter that the C code does not have).
\<close>

function refill_ordered_disjoint_loop ::
  "sched_context_t \<Rightarrow> word_t \<Rightarrow> word_t \<Rightarrow> word_t \<Rightarrow> nat \<Rightarrow> bool \<times> nat" where
  "refill_ordered_disjoint_loop sc current nxt seen iters =
     (if seen < scRefillCount sc then
        if \<not> (rTime (refill_index sc current) + rAmount (refill_index sc current)
                \<le> rTime (refill_index sc nxt))
        then (False, Suc iters)
        else refill_ordered_disjoint_loop sc nxt (refill_next sc nxt) (seen + 1) (Suc iters)
      else (True, iters))"
  by pat_completeness auto
termination
proof (relation "measure (\<lambda>(sc, current, nxt, seen, iters). unat (scRefillCount sc) - unat seen)",
    goal_cases)
  case 1
  show ?case by simp
next
  case (2 sc current nxt seen iters)
  from 2(1) have "unat (seen + 1) = Suc (unat seen)" by unat_arith
  with 2(1) show ?case by (simp add: word_less_nat_alt)
qed

definition refill_ordered_disjoint :: "sched_context_t \<Rightarrow> bool" where
  "refill_ordered_disjoint sc =
     fst (refill_ordered_disjoint_loop sc (scRefillHead sc) (refill_next sc (scRefillHead sc)) 1 0)"

function refill_at_least_min_budget_loop ::
  "platform_t \<Rightarrow> sched_context_t \<Rightarrow> word_t \<Rightarrow> word_t \<Rightarrow> nat \<Rightarrow> bool \<times> nat" where
  "refill_at_least_min_budget_loop plat sc current seen iters =
     (if seen < scRefillCount sc then
        if \<not> (rAmount (refill_index sc current) \<ge> MIN_BUDGET plat)
        then (False, Suc iters)
        else refill_at_least_min_budget_loop plat sc (refill_next sc current) (seen + 1) (Suc iters)
      else (True, iters))"
  by pat_completeness auto
termination
proof (relation "measure (\<lambda>(plat, sc, current, seen, iters). unat (scRefillCount sc) - unat seen)",
    goal_cases)
  case 1
  show ?case by simp
next
  case (2 plat sc current seen iters)
  from 2(1) have "unat (seen + 1) = Suc (unat seen)" by unat_arith
  with 2(1) show ?case by (simp add: word_less_nat_alt)
qed

definition refill_at_least_min_budget :: "platform_t \<Rightarrow> sched_context_t \<Rightarrow> bool" where
  "refill_at_least_min_budget plat sc =
     fst (refill_at_least_min_budget_loop plat sc (scRefillHead sc) 0 0)"

function refill_sum_loop ::
  "sched_context_t \<Rightarrow> ticks_t \<Rightarrow> word_t \<Rightarrow> word_t \<Rightarrow> nat \<Rightarrow> ticks_t \<times> nat" where
  "refill_sum_loop sc acc current seen iters =
     (if seen < scRefillCount sc
      then refill_sum_loop sc (acc + rAmount (refill_index sc current)) (refill_next sc current)
             (seen + 1) (Suc iters)
      else (acc, iters))"
  by pat_completeness auto
termination
proof (relation "measure (\<lambda>(sc, acc, current, seen, iters). unat (scRefillCount sc) - unat seen)",
    goal_cases)
  case 1
  show ?case by simp
next
  case (2 sc acc current seen iters)
  from 2(1) have "unat (seen + 1) = Suc (unat seen)" by unat_arith
  with 2(1) show ?case by (simp add: word_less_nat_alt)
qed

definition refill_sum :: "sched_context_t \<Rightarrow> ticks_t" where
  "refill_sum sc = fst (refill_sum_loop sc 0 (scRefillHead sc) 0 0)"

definition refill_sum_to_budget :: "sched_context_t \<Rightarrow> bool" where
  "refill_sum_to_budget sc = (refill_sum sc = scBudget sc)"

definition refill_all_within_period :: "sched_context_t \<Rightarrow> bool" where
  "refill_all_within_period sc =
     (rTime (REFILL_TAIL sc) + rAmount (REFILL_TAIL sc) - rTime (REFILL_HEAD sc) \<le> scPeriod sc)"

text \<open>
  The five universal invariants P1 to P5, as the checkers above compute them; P5 is
  the bound that \<open>refill_tail_index\<close> asserts.
\<close>

definition universal_invariants :: "platform_t \<Rightarrow> sched_context_t \<Rightarrow> bool" where
  "universal_invariants plat sc \<longleftrightarrow>
     refill_ordered_disjoint sc \<and> refill_at_least_min_budget plat sc \<and>
     refill_sum_to_budget sc \<and> refill_all_within_period sc \<and>
     scRefillCount sc \<le> scRefillMax sc"

subsection \<open>Slot accesses\<close>

text \<open>
  Every access to a slot of the refill array, read or write, is a call
  \<open>refill_index(sc, index)\<close>, written \<open>REFILL_INDEX\<close>, \<open>REFILL_HEAD\<close> or \<open>REFILL_TAIL\<close> in
  the C code.  An access is recorded as the index passed together with the capacity
  \<open>scRefillMax\<close> of the context at the time of the call, and it is in range when it
  meets the assertion \<open>index < sc->scRefillMax\<close> of \<open>refill_index\<close>.
\<close>

type_synonym slot_access = "word_t \<times> word_t"

definition index_access :: "sched_context_t \<Rightarrow> word_t \<Rightarrow> slot_access" where
  "index_access sc index = (index, scRefillMax sc)"

definition head_access :: "sched_context_t \<Rightarrow> slot_access" where
  "head_access sc = index_access sc (scRefillHead sc)"

definition tail_access :: "sched_context_t \<Rightarrow> slot_access" where
  "tail_access sc = index_access sc (refill_tail_index sc)"




















subsection \<open>The queue as a list\<close>

text \<open>
  The slot indices of the queue in order, starting at index \<open>i\<close>, and the refills
  found there: the abstraction function of the circular buffer.
\<close>

primrec refill_indices :: "sched_context_t \<Rightarrow> word_t \<Rightarrow> nat \<Rightarrow> word_t list" where
  "refill_indices sc i 0 = []"
| "refill_indices sc i (Suc n) = i # refill_indices sc (refill_next sc i) n"

definition refill_list :: "sched_context_t \<Rightarrow> refill_t list" where
  "refill_list sc =
     map (refill_index sc) (refill_indices sc (scRefillHead sc) (unat (scRefillCount sc)))"

text \<open>
  The data model of a scheduling context: the head index lies inside the slot array.
  The bound on the capacity keeps the index arithmetic of \<open>refill_tail_index\<close> from
  wrapping; a slot array of \<open>2 ^ 63\<close> refills does not fit any address space.
\<close>

definition sc_wf :: "sched_context_t \<Rightarrow> bool" where
  "sc_wf sc \<longleftrightarrow> scRefillHead sc < scRefillMax sc \<and> unat (scRefillMax sc) \<le> 2 ^ 63"

text \<open>
  What the correspondence between the circular buffer and the list needs of a context:
  head and count within the capacity, and no wrap-around in \<open>head + count\<close>.
\<close>

definition ring_wf :: "sched_context_t \<Rightarrow> bool" where
  "ring_wf sc \<longleftrightarrow>
     scRefillHead sc < scRefillMax sc \<and> scRefillCount sc \<le> scRefillMax sc \<and>
     unat (scRefillHead sc) + unat (scRefillCount sc) < 2 ^ 64"

text \<open>
  The ordered-disjoint check on a list of refills, in the 64-bit arithmetic of
  \<open>refill_ordered_disjoint\<close>: every refill ends no later than the next one starts.
\<close>

fun ordered_disjoint_list :: "refill_t list \<Rightarrow> bool" where
  "ordered_disjoint_list (r # s # rs) \<longleftrightarrow>
     rTime r + rAmount r \<le> rTime s \<and> ordered_disjoint_list (s # rs)"
| "ordered_disjoint_list _ \<longleftrightarrow> True"

subsection \<open>Slot indices in range\<close>

text \<open>
  \<open>ring_ok\<close>: the head index is a slot of the array and the count does not exceed the
  capacity.  \<open>same_outside m sc sc'\<close>: the memory behind slot \<open>m\<close> is the same in both
  contexts.  \<open>in_bounds_step sc sc'\<close>: going from \<open>sc\<close> to \<open>sc'\<close> kept the capacity, left the
  memory behind the slot array alone and ended with \<open>ring_ok\<close>.
\<close>

definition ring_ok :: "sched_context_t \<Rightarrow> bool" where
  "ring_ok sc \<longleftrightarrow> scRefillHead sc < scRefillMax sc \<and> scRefillCount sc \<le> scRefillMax sc"

definition same_outside :: "word_t \<Rightarrow> sched_context_t \<Rightarrow> sched_context_t \<Rightarrow> bool" where
  "same_outside m sc sc' \<longleftrightarrow> (\<forall>i. m \<le> i \<longrightarrow> scRefills sc' i = scRefills sc i)"

definition in_bounds_step :: "sched_context_t \<Rightarrow> sched_context_t \<Rightarrow> bool" where
  "in_bounds_step sc sc' \<longleftrightarrow>
     ring_ok sc' \<and> scRefillMax sc' = scRefillMax sc \<and> same_outside (scRefillMax sc) sc sc'"

text \<open>The condition under which \<open>schedule_used\<close> splits the tail (its second case).\<close>

definition schedule_used_splits :: "platform_t \<Rightarrow> sched_context_t \<Rightarrow> refill_t \<Rightarrow> bool" where
  "schedule_used_splits plat sc new \<longleftrightarrow>
     rAmount new < MIN_BUDGET plat \<and> \<not> refill_full sc
     \<and> rAmount (REFILL_TAIL sc) + rAmount new \<ge> 2 * MIN_BUDGET plat"

text \<open>
  What \<open>schedule_used\<close> does to a non-empty queue, on the list: split the tail, merge
  into the tail, or append.
\<close>

definition schedule_used_list :: "ticks_t \<Rightarrow> bool \<Rightarrow> refill_t list \<Rightarrow> refill_t \<Rightarrow> refill_t list" where
  "schedule_used_list m full xs new =
     (if rAmount new < m \<and> \<not> full \<and> 2 * m \<le> rAmount (last xs) + rAmount new
      then butlast xs @ [(last xs)\<lparr>rAmount := rAmount (last xs) - (m - rAmount new)\<rparr>,
                         \<lparr>rTime = rTime new - (m - rAmount new), rAmount = m\<rparr>]
      else if rAmount new < m \<or> full
      then butlast xs @ [\<lparr>rTime = rTime new - rAmount (last xs),
                          rAmount = rAmount (last xs) + rAmount new\<rparr>]
      else xs @ [new])"

text \<open>
  The merging loop of \<open>refill_unblock_check\<close> on the list; \<open>nw\<close> is \<open>now + wcet\<close>.
\<close>

fun unblock_merge_list :: "ticks_t \<Rightarrow> refill_t list \<Rightarrow> refill_t list" where
  "unblock_merge_list nw (h # s # rs) =
     (if rTime s \<le> rTime h + rAmount h
      then unblock_merge_list nw (\<lparr>rTime = nw, rAmount = rAmount s + rAmount h\<rparr> # rs)
      else h # s # rs)"
| "unblock_merge_list nw xs = xs"

text \<open>The sum of the refill amounts over the natural numbers, where nothing wraps.\<close>

definition amounts_total :: "refill_t list \<Rightarrow> nat" where
  "amounts_total xs = sum_list (map (\<lambda>r. unat (rAmount r)) xs)"

subsection \<open>Refills over the natural numbers\<close>

text \<open>
  To show that the invariants are preserved, the refills are also read over the
  natural numbers, where nothing wraps.  \<open>refill_end r\<close> is the time at which a refill
  ends; \<open>before r s\<close> says that \<open>r\<close> ends no later than \<open>s\<close> starts; a list is \<open>chained\<close>
  when its refills are in order and disjoint and all end before \<open>2 ^ 64\<close>.
  \<open>valid_refills m P B xs\<close> states the invariants P1 to P4 of a non-empty queue over
  the natural numbers, for minimum budget \<open>m\<close>, period \<open>P\<close> and budget \<open>B\<close>.
  \<open>refills_no_overflow sc\<close>: for no refill of the queue does \<open>rTime + rAmount\<close> wrap
  around \<open>2 ^ 64\<close>.
\<close>

definition refill_end :: "refill_t \<Rightarrow> nat" where
  "refill_end r = unat (rTime r) + unat (rAmount r)"

definition before :: "refill_t \<Rightarrow> refill_t \<Rightarrow> bool" where
  "before r s \<longleftrightarrow> refill_end r \<le> unat (rTime s)"

definition chained :: "refill_t list \<Rightarrow> bool" where
  "chained xs \<longleftrightarrow> sorted_wrt before xs \<and> (\<forall>r\<in>set xs. refill_end r < 2 ^ 64)"

definition valid_refills :: "nat \<Rightarrow> nat \<Rightarrow> nat \<Rightarrow> refill_t list \<Rightarrow> bool" where
  "valid_refills m P B xs \<longleftrightarrow>
     xs \<noteq> [] \<and> chained xs \<and> (\<forall>r\<in>set xs. m \<le> unat (rAmount r)) \<and> amounts_total xs = B \<and>
     refill_end (last xs) \<le> unat (rTime (hd xs)) + P"

definition refills_no_overflow :: "sched_context_t \<Rightarrow> bool" where
  "refills_no_overflow sc \<longleftrightarrow> list_all (\<lambda>r. refill_end r < 2 ^ 64) (refill_list sc)"

subsection \<open>Concrete contexts used for evaluation\<close>

text \<open>A platform with \<open>wcet = 5\<close> and scale 1, so that \<open>MIN_BUDGET = 10\<close>.\<close>

definition example_plat :: platform_t where
  "example_plat = \<lparr>kernelWcetTicks = 5, kernelWcetScale = 1, isRoundRobin = (\<lambda>sc. scPeriod sc = 0)\<rparr>"

definition at_time :: "ticks_t \<Rightarrow> node_state_t" where
  "at_time t = \<lparr>ksCurTime = t, ksReprogram = False\<rparr>"

definition no_refills :: "word_t \<Rightarrow> refill_t" where
  "no_refills = (\<lambda>_. \<lparr>rTime = 0, rAmount = 0\<rparr>)"

text \<open>A context with period \<open>P\<close>, budget \<open>B\<close>, four slots and one refill \<open>(t, a)\<close> in slot 0.\<close>

definition single_refill_sc :: "ticks_t \<Rightarrow> ticks_t \<Rightarrow> ticks_t \<Rightarrow> ticks_t \<Rightarrow> sched_context_t" where
  "single_refill_sc P B t a =
     \<lparr>scPeriod = P, scBudget = B, scRefillMax = 4, scRefillHead = 0, scRefillCount = 1,
      scRefills = no_refills(0 := \<lparr>rTime = t, rAmount = a\<rparr>)\<rparr>"

text \<open>The queue of the coalescing scenario: refills \<open>(0, 40)\<close>, \<open>(50, 30)\<close>, \<open>(90, 30)\<close>.\<close>

definition three_refill_sc :: sched_context_t where
  "three_refill_sc =
     \<lparr>scPeriod = 1000, scBudget = 100, scRefillMax = 4, scRefillHead = 0, scRefillCount = 3,
      scRefills = no_refills(0 := \<lparr>rTime = 0, rAmount = 40\<rparr>, 1 := \<lparr>rTime = 50, rAmount = 30\<rparr>,
                             2 := \<lparr>rTime = 90, rAmount = 30\<rparr>)\<rparr>"

text \<open>
  Platforms with \<open>MIN_BUDGET = 30\<close>, with \<open>MIN_BUDGET = 8\<close> and with
  \<open>MIN_BUDGET = 2 ^ 63\<close>.
\<close>

definition example_plat_30 :: platform_t where
  "example_plat_30 = \<lparr>kernelWcetTicks = 15, kernelWcetScale = 1, isRoundRobin = (\<lambda>sc. scPeriod sc = 0)\<rparr>"

definition example_plat_8 :: platform_t where
  "example_plat_8 = \<lparr>kernelWcetTicks = 4, kernelWcetScale = 1, isRoundRobin = (\<lambda>sc. scPeriod sc = 0)\<rparr>"

definition example_plat_huge :: platform_t where
  "example_plat_huge =
     \<lparr>kernelWcetTicks = 4611686018427387904, kernelWcetScale = 1,
      isRoundRobin = (\<lambda>sc. scPeriod sc = 0)\<rparr>"

text \<open>
  Contexts at the edge of the 64-bit range: one refill \<open>(2 ^ 64 - 10, 12)\<close>, which ends
  after the clock has wrapped, with period 1000; one refill \<open>(0, 2 ^ 63)\<close> with period
  \<open>2 ^ 64 - 1\<close>; and one refill \<open>(100, 100)\<close> with period \<open>2 ^ 64 - 50\<close>.
\<close>

definition late_tail_sc :: sched_context_t where
  "late_tail_sc = single_refill_sc 1000 12 18446744073709551606 12"

definition huge_tail_sc :: sched_context_t where
  "huge_tail_sc = single_refill_sc 18446744073709551615 9223372036854775808 0 9223372036854775808"

definition long_period_sc :: sched_context_t where
  "long_period_sc = single_refill_sc 18446744073709551566 100 100 100"


section \<open>Properties\<close>

declare refill_sum_loop.simps [simp del] refill_ordered_disjoint_loop.simps [simp del]
  refill_at_least_min_budget_loop.simps [simp del] refill_unblock_check_loop.simps [simp del]

subsection \<open>Indices of the circular buffer\<close>

lemma refill_next_less: "i < scRefillMax sc \<Longrightarrow> refill_next sc i < scRefillMax sc"
  unfolding refill_next_def by unat_arith

lemma unat_refill_next:
  assumes "i < scRefillMax sc"
  shows "unat (refill_next sc i) = (unat i + 1) mod unat (scRefillMax sc)"
proof (cases "i = scRefillMax sc - 1")
  case True
  with assms have "unat i + 1 = unat (scRefillMax sc)" by unat_arith
  with True show ?thesis by (simp add: refill_next_def)
next
  case False
  with assms have "unat (i + 1) = unat i + 1" "unat i + 1 < unat (scRefillMax sc)"
    by unat_arith+
  with False show ?thesis by (simp add: refill_next_def)
qed

lemma refill_indices_nth:
  "i < scRefillMax sc \<Longrightarrow> k < n \<Longrightarrow>
   unat (refill_indices sc i n ! k) = (unat i + k) mod unat (scRefillMax sc)"
proof (induction n arbitrary: i k)
  case 0
  then show ?case by simp
next
  case (Suc n)
  show ?case
  proof (cases k)
    case 0
    with Suc.prems show ?thesis by (simp add: word_less_nat_alt)
  next
    case (Suc j)
    with Suc.prems Suc.IH[of "refill_next sc i" j] show ?thesis
      by (simp add: refill_next_less unat_refill_next mod_simps)
  qed
qed

lemma length_refill_indices [simp]: "length (refill_indices sc i n) = n"
  by (induction n arbitrary: i) auto

lemma refill_indices_less:
  "i < scRefillMax sc \<Longrightarrow> j \<in> set (refill_indices sc i n) \<Longrightarrow> j < scRefillMax sc"
proof (induction n arbitrary: i)
  case 0
  then show ?case by simp
next
  case (Suc n)
  then show ?case using refill_next_less[of i sc] by auto
qed

lemma mod_shift_inj:
  fixes h M :: nat
  assumes "j < k" "k < M" "(h + j) mod M = (h + k) mod M"
  shows False
proof -
  from assms(1,3) have "M dvd (h + k) - (h + j)"
    by (metis add_le_cancel_left less_imp_le_nat mod_eq_dvd_iff_nat)
  then have "M dvd k - j" by simp
  with assms(1,2) show False
    by (meson dvd_imp_le less_imp_diff_less not_less zero_less_diff)
qed

lemma distinct_refill_indices:
  assumes "i < scRefillMax sc" "n \<le> unat (scRefillMax sc)"
  shows "distinct (refill_indices sc i n)"
proof -
  have "refill_indices sc i n ! j \<noteq> refill_indices sc i n ! k" if "j < k" "k < n" for j k
  proof
    assume "refill_indices sc i n ! j = refill_indices sc i n ! k"
    then have "unat (refill_indices sc i n ! j) = unat (refill_indices sc i n ! k)" by simp
    with that assms have "(unat i + j) mod unat (scRefillMax sc) = (unat i + k) mod unat (scRefillMax sc)"
      by (simp add: refill_indices_nth)
    with that assms show False using mod_shift_inj[of j k "unat (scRefillMax sc)" "unat i"] by simp
  qed
  then have "refill_indices sc i n ! j \<noteq> refill_indices sc i n ! k"
    if "j < n" "k < n" "j \<noteq> k" for j k
    using that by (metis linorder_neqE_nat)
  then show ?thesis
    by (simp add: distinct_conv_nth)
qed

lemma refill_indices_snoc:
  "refill_indices sc i (Suc n) = refill_indices sc i n @ [(refill_next sc ^^ n) i]"
proof (induction n arbitrary: i)
  case 0
  show ?case by simp
next
  case (Suc n)
  have "refill_indices sc i (Suc (Suc n)) = i # refill_indices sc (refill_next sc i) (Suc n)"
    by simp
  also have "\<dots> = i # refill_indices sc (refill_next sc i) n @ [(refill_next sc ^^ n) (refill_next sc i)]"
    by (simp only: Suc.IH)
  finally show ?case by (simp add: funpow_swap1)
qed

lemma refill_indices_last:
  "refill_indices sc i (Suc n) ! n = (refill_next sc ^^ n) i"
  by (subst refill_indices_snoc) (simp add: nth_append)

lemma unat_funpow_refill_next:
  "i < scRefillMax sc \<Longrightarrow> unat ((refill_next sc ^^ n) i) = (unat i + n) mod unat (scRefillMax sc)"
  using refill_indices_nth[of i sc n "Suc n"] by (simp only: refill_indices_last)

lemma funpow_refill_next_notin:
  assumes "i < scRefillMax sc" "n < unat (scRefillMax sc)"
  shows "(refill_next sc ^^ n) i \<notin> set (refill_indices sc i n)"
  using distinct_refill_indices[of i sc "Suc n"] assms
  by (simp only: refill_indices_snoc) simp

lemma refill_tail_index_funpow:
  assumes "scRefillHead sc < scRefillMax sc" "scRefillCount sc \<le> scRefillMax sc" "scRefillCount sc \<noteq> 0"
     and "unat (scRefillHead sc) + unat (scRefillCount sc) \<le> 2 ^ 64"
   shows "refill_tail_index sc = (refill_next sc ^^ (unat (scRefillCount sc) - 1)) (scRefillHead sc)"
proof -
  let ?h = "unat (scRefillHead sc)" and ?c = "unat (scRefillCount sc)" and ?M = "unat (scRefillMax sc)"
  have c: "0 < ?c" using assms(3) by (simp add: unat_gt_0)
  have hM: "?h < ?M" "?c \<le> ?M" using assms(1,2) by (simp_all add: word_less_nat_alt word_le_nat_alt)
  have c1: "unat (scRefillCount sc - 1) = ?c - 1"
    using c by (simp add: unat_sub word_le_nat_alt)
  have "?h + unat (scRefillCount sc - 1) < 2 ^ LENGTH(64)"
    using c c1 assms(4) by simp
  then have "unat (scRefillHead sc + (scRefillCount sc - 1)) = ?h + unat (scRefillCount sc - 1)"
    by (simp only: unat_add_lem)
  with c1 have idx: "unat (scRefillHead sc + scRefillCount sc - 1) = ?h + ?c - 1"
    using c by (simp add: add_diff_eq)
  have lt: "?h + ?c - 1 < 2 * ?M" using hM c by linarith
  have tgt: "unat ((refill_next sc ^^ (?c - 1)) (scRefillHead sc)) = (?h + (?c - 1)) mod ?M"
    using assms(1) by (rule unat_funpow_refill_next)
  show ?thesis
  proof (cases "scRefillMax sc \<le> scRefillHead sc + scRefillCount sc - 1")
    case True
    then have ge: "?M \<le> ?h + ?c - 1" by (simp add: word_le_nat_alt idx)
    with True have "unat (refill_tail_index sc) = ?h + ?c - 1 - ?M"
      by (simp add: refill_tail_index_def unat_sub idx)
    also have "\<dots> = (?h + (?c - 1)) mod ?M"
      using ge lt c by (simp add: mod_if le_mod_geq)
    finally show ?thesis using tgt by (simp add: word_unat_eq_iff)
  next
    case False
    then have ge: "?h + ?c - 1 < ?M" by (simp add: word_le_nat_alt idx)
    with False have "unat (refill_tail_index sc) = ?h + ?c - 1"
      by (simp add: refill_tail_index_def idx)
    also have "\<dots> = (?h + (?c - 1)) mod ?M"
      using ge c by simp
    finally show ?thesis using tgt by (simp add: word_unat_eq_iff)
  qed
qed


subsection \<open>Queue operations on the list\<close>

lemma refill_next_cong: "scRefillMax sc' = scRefillMax sc \<Longrightarrow> refill_next sc' i = refill_next sc i"
  by (simp add: refill_next_def)

lemma refill_indices_cong:
  "scRefillMax sc' = scRefillMax sc \<Longrightarrow> refill_indices sc' i n = refill_indices sc i n"
proof (induction n arbitrary: i)
  case 0
  show ?case by simp
next
  case (Suc n)
  from Suc.prems have "refill_next sc' i = refill_next sc i" by (rule refill_next_cong)
  with Suc show ?case by simp
qed

lemma refill_indices_updates [simp]:
  "refill_indices (refill_index_update sc j f) i n = refill_indices sc i n"
  "refill_indices (sc\<lparr>scRefillCount := c\<rparr>) i n = refill_indices sc i n"
  "refill_indices (sc\<lparr>scRefillHead := h\<rparr>) i n = refill_indices sc i n"
  by (rule refill_indices_cong, simp add: refill_index_update_def)+

lemma refill_next_updates [simp]:
  "refill_next (refill_index_update sc j f) i = refill_next sc i"
  "refill_next (sc\<lparr>scRefillCount := c\<rparr>) i = refill_next sc i"
  "refill_next (sc\<lparr>scRefillHead := h\<rparr>) i = refill_next sc i"
  by (simp_all add: refill_next_def refill_index_update_def)

lemma length_refill_list [simp]: "length (refill_list sc) = unat (scRefillCount sc)"
  by (simp add: refill_list_def)

lemma refill_list_eq_Nil [simp]: "refill_list sc = [] \<longleftrightarrow> scRefillCount sc = 0"
  by (metis length_0_conv length_refill_list unat_eq_0)

lemma refill_list_single:
  "scRefillCount sc = 1 \<Longrightarrow> refill_list sc = [refill_index sc (scRefillHead sc)]"
  by (simp add: refill_list_def)

lemma REFILL_HEAD_hd: "scRefillCount sc \<noteq> 0 \<Longrightarrow> REFILL_HEAD sc = hd (refill_list sc)"
proof -
  assume "scRefillCount sc \<noteq> 0"
  then obtain n where "unat (scRefillCount sc) = Suc n"
    by (metis not0_implies_Suc unat_eq_0)
  then show ?thesis by (simp add: refill_list_def REFILL_HEAD_def)
qed

lemma refill_list_pop_head:
  assumes "scRefillCount sc \<noteq> 0"
  shows "refill_list (snd (refill_pop_head sc)) = tl (refill_list sc)"
proof -
  from assms obtain n where n: "unat (scRefillCount sc) = Suc n"
    by (metis not0_implies_Suc unat_eq_0)
  then have "unat (scRefillCount sc - 1) = n"
    using assms by (simp add: unat_sub word_le_nat_alt)
  with n show ?thesis
    by (simp add: refill_list_def refill_pop_head_def Let_def refill_index_def[abs_def])
qed

lemma refill_index_update_same_max [simp]:
  "scRefillMax (refill_index_update sc i f) = scRefillMax sc"
  "scRefillHead (refill_index_update sc i f) = scRefillHead sc"
  "scRefillCount (refill_index_update sc i f) = scRefillCount sc"
  "scPeriod (refill_index_update sc i f) = scPeriod sc"
  "scBudget (refill_index_update sc i f) = scBudget sc"
  by (simp_all add: refill_index_update_def)

lemma refill_index_refill_index_update:
  "refill_index (refill_index_update sc i f) j = (if j = i then f (refill_index sc i) else refill_index sc j)"
  by (simp add: refill_index_update_def refill_index_def)

lemma map_refill_index_update_notin:
  "i \<notin> set js \<Longrightarrow> map (refill_index (refill_index_update sc i f)) js = map (refill_index sc) js"
  by (induction js) (auto simp: refill_index_refill_index_update)

lemma ring_wfI: "sc_wf sc \<Longrightarrow> scRefillCount sc \<le> scRefillMax sc \<Longrightarrow> ring_wf sc"
proof -
  assume a: "sc_wf sc" "scRefillCount sc \<le> scRefillMax sc"
  then have "unat (scRefillHead sc) < unat (scRefillMax sc)"
    "unat (scRefillCount sc) \<le> unat (scRefillMax sc)" "unat (scRefillMax sc) \<le> 2 ^ 63"
    by (simp_all add: sc_wf_def word_less_nat_alt word_le_nat_alt)
  then have "unat (scRefillHead sc) + unat (scRefillCount sc) < 2 ^ 64" by simp
  with a show ?thesis by (simp add: ring_wf_def sc_wf_def)
qed

lemma refill_list_head_update:
  assumes "ring_wf sc" "scRefillCount sc \<noteq> 0"
  shows "refill_list (REFILL_HEAD_update sc f) = f (hd (refill_list sc)) # tl (refill_list sc)"
proof -
  from assms obtain n where n: "unat (scRefillCount sc) = Suc n"
    by (metis not0_implies_Suc unat_eq_0)
  have "distinct (refill_indices sc (scRefillHead sc) (Suc n))"
    using assms n by (intro distinct_refill_indices) (simp_all add: ring_wf_def word_le_nat_alt)
  then have "scRefillHead sc \<notin> set (refill_indices sc (refill_next sc (scRefillHead sc)) n)"
    by simp
  then show ?thesis using n
    by (simp add: refill_list_def REFILL_HEAD_update_def
        map_refill_index_update_notin refill_index_refill_index_update)
qed

lemma refill_indices_tail:
  assumes "ring_wf sc" "scRefillCount sc \<noteq> 0"
  shows "refill_indices sc (scRefillHead sc) (unat (scRefillCount sc)) =
         refill_indices sc (scRefillHead sc) (unat (scRefillCount sc) - 1) @ [refill_tail_index sc]"
    and "refill_tail_index sc \<notin> set (refill_indices sc (scRefillHead sc) (unat (scRefillCount sc) - 1))"
proof -
  from assms obtain n where n: "unat (scRefillCount sc) = Suc n"
    by (metis not0_implies_Suc unat_eq_0)
  have hM: "unat (scRefillHead sc) < unat (scRefillMax sc)" "unat (scRefillCount sc) \<le> unat (scRefillMax sc)"
    using assms by (simp_all add: ring_wf_def word_less_nat_alt word_le_nat_alt)
  have "unat (scRefillHead sc) + unat (scRefillCount sc) \<le> 2 ^ 64"
    using assms(1) by (simp add: ring_wf_def)
  then have t: "refill_tail_index sc = (refill_next sc ^^ n) (scRefillHead sc)"
    using refill_tail_index_funpow[of sc] assms n by (simp add: ring_wf_def)
  show "refill_indices sc (scRefillHead sc) (unat (scRefillCount sc)) =
         refill_indices sc (scRefillHead sc) (unat (scRefillCount sc) - 1) @ [refill_tail_index sc]"
    using n t by (simp only: refill_indices_snoc) simp
  show "refill_tail_index sc \<notin> set (refill_indices sc (scRefillHead sc) (unat (scRefillCount sc) - 1))"
    using n t funpow_refill_next_notin[of "scRefillHead sc" sc n] assms hM
    by (simp add: ring_wf_def)
qed

lemma REFILL_TAIL_last:
  assumes "ring_wf sc" "scRefillCount sc \<noteq> 0"
  shows "REFILL_TAIL sc = last (refill_list sc)"
  by (simp add: refill_list_def REFILL_TAIL_def refill_indices_tail(1)[OF assms])

lemma refill_list_tail_update:
  assumes "ring_wf sc" "scRefillCount sc \<noteq> 0"
  shows "refill_list (REFILL_TAIL_update sc f) = butlast (refill_list sc) @ [f (last (refill_list sc))]"
  using refill_indices_tail(2)[OF assms]
  by (simp add: refill_list_def REFILL_TAIL_update_def
      refill_indices_tail(1)[OF assms] map_refill_index_update_notin refill_index_refill_index_update)

lemma refill_list_add_tail:
  assumes "scRefillCount sc < scRefillMax sc"
      and "ring_wf (sc\<lparr>scRefillCount := scRefillCount sc + 1\<rparr>)"
  shows "refill_list (refill_add_tail sc r) = refill_list sc @ [r]"
proof -
  let ?sc = "sc\<lparr>scRefillCount := scRefillCount sc + 1\<rparr>"
  have c: "unat (scRefillCount sc + 1) = Suc (unat (scRefillCount sc))"
    using assms(1) by unat_arith
  have "scRefillCount sc + 1 \<noteq> 0" using c by (metis Zero_not_Suc unat_eq_0)
  then have ne: "scRefillCount ?sc \<noteq> 0" by simp
  have "refill_list (REFILL_TAIL_update ?sc (\<lambda>_. r)) = butlast (refill_list ?sc) @ [r]"
    by (rule refill_list_tail_update[OF assms(2) ne])
  moreover have "butlast (refill_list ?sc) = refill_list sc"
    using refill_indices_tail(1)[OF assms(2) ne] c
    by (simp add: refill_list_def refill_index_def[abs_def] butlast_append del: refill_indices.simps)
  ultimately show ?thesis by (simp add: refill_add_tail_def)
qed

subsection \<open>Slot indices stay in range\<close>


lemma unat_add_le_sum: "unat (a + b :: 64 word) \<le> unat a + unat b"
  by (simp add: unat_word_ariths)


lemma unat_minus_1: "(c::64 word) \<noteq> 0 \<Longrightarrow> unat (c - 1) = unat c - 1"
  by (simp add: unat_sub word_le_nat_alt unat_gt_0 Suc_leI)

lemma unat_plus_1: "(c::64 word) < m \<Longrightarrow> unat (c + 1) = Suc (unat c)"
  by unat_arith







lemma in_bounds_step_count_succ:
  assumes "ring_ok sc" "scRefillCount sc \<noteq> scRefillMax sc"
  shows "in_bounds_step sc (sc\<lparr>scRefillCount := scRefillCount sc + 1\<rparr>)"
    and "scRefillCount sc + 1 \<noteq> 0"
proof -
  from assms have lt: "scRefillCount sc < scRefillMax sc" by (auto simp: ring_ok_def)
  then have s: "unat (scRefillCount sc + 1) = Suc (unat (scRefillCount sc))" by (rule unat_plus_1)
  with lt have "scRefillCount sc + 1 \<le> scRefillMax sc"
    by (simp add: word_le_nat_alt word_less_nat_alt)
  then show "in_bounds_step sc (sc\<lparr>scRefillCount := scRefillCount sc + 1\<rparr>)"
    using assms(1) by (simp add: in_bounds_step_def same_outside_def ring_ok_def)
  show "scRefillCount sc + 1 \<noteq> 0" using s by (metis Zero_not_Suc unat_eq_0)
qed



lemma schedule_used_empty:
  "refill_empty sc \<Longrightarrow> schedule_used plat sc new = refill_add_tail sc new"
  by (simp add: schedule_used_def)

lemma schedule_used_split:
  "\<not> refill_empty sc \<Longrightarrow> schedule_used_splits plat sc new \<Longrightarrow>
   schedule_used plat sc new =
     refill_add_tail
       (REFILL_TAIL_update sc (\<lambda>r. r\<lparr>rAmount := rAmount r - (MIN_BUDGET plat - rAmount new)\<rparr>))
       \<lparr>rTime = rTime new - (MIN_BUDGET plat - rAmount new),
        rAmount = MIN_BUDGET plat\<rparr>"
  by (cases new) (simp add: schedule_used_def schedule_used_splits_def Let_def)

lemma schedule_used_merge:
  "\<not> refill_empty sc \<Longrightarrow> \<not> schedule_used_splits plat sc new \<Longrightarrow>
   rAmount new < MIN_BUDGET plat \<or> refill_full sc \<Longrightarrow>
   schedule_used plat sc new =
     REFILL_TAIL_update (REFILL_TAIL_update sc (\<lambda>r. r\<lparr>rTime := rTime new - rAmount r\<rparr>))
       (\<lambda>r. r\<lparr>rAmount := rAmount r + rAmount new\<rparr>)"
  by (auto simp: schedule_used_def schedule_used_splits_def Let_def)

lemma schedule_used_push:
  "\<not> refill_empty sc \<Longrightarrow> \<not> (rAmount new < MIN_BUDGET plat \<or> refill_full sc) \<Longrightarrow>
   schedule_used plat sc new = refill_add_tail sc new"
  by (simp add: schedule_used_def Let_def)


lemma schedule_used_nonempty: "ring_ok sc \<Longrightarrow> scRefillCount (schedule_used plat sc new) \<noteq> 0"
  using in_bounds_step_count_succ(2)[of sc]
  by (auto simp: schedule_used_def Let_def refill_add_tail_def REFILL_TAIL_update_def
      refill_empty_def refill_full_def)



lemma unblock_loop_step:
  "1 < refill_size sc \<Longrightarrow>
   rTime (refill_index sc (refill_next sc (scRefillHead sc)))
     \<le> rTime (REFILL_HEAD sc) + rAmount (REFILL_HEAD sc) \<Longrightarrow>
   refill_unblock_check_loop plat ns sc iters =
     refill_unblock_check_loop plat ns
       (REFILL_HEAD_update
          (REFILL_HEAD_update (snd (refill_pop_head sc))
             (\<lambda>r. r\<lparr>rAmount := rAmount r + rAmount (REFILL_HEAD sc)\<rparr>))
          (\<lambda>r. r\<lparr>rTime := ksCurTime ns + kernelWcetTicks plat\<rparr>))
       (Suc iters)"
  by (subst refill_unblock_check_loop.simps) (simp add: Let_def)

lemma unblock_loop_stop:
  "\<not> (1 < refill_size sc \<and>
      rTime (refill_index sc (refill_next sc (scRefillHead sc)))
        \<le> rTime (REFILL_HEAD sc) + rAmount (REFILL_HEAD sc)) \<Longrightarrow>
   refill_unblock_check_loop plat ns sc iters = (sc, iters)"
  by (subst refill_unblock_check_loop.simps) (auto simp: Let_def)








lemma access_updates [simp]:
  "head_access (REFILL_HEAD_update sc f) = head_access sc"
  "head_access (REFILL_TAIL_update sc f) = head_access sc"
  "tail_access (REFILL_HEAD_update sc f) = tail_access sc"
  "tail_access (REFILL_TAIL_update sc f) = tail_access sc"
  by (simp_all add: head_access_def tail_access_def index_access_def refill_tail_index_def
      REFILL_HEAD_update_def REFILL_TAIL_update_def refill_index_update_def Let_def)

















subsection \<open>Loops and the number of their iterations\<close>

lemma loop_guard_remaining:
  "unat (c::64 word) - unat seen = 0 \<Longrightarrow> \<not> seen < c"
  "unat (c::64 word) - unat seen = Suc n \<Longrightarrow> seen < c"
  "unat (c::64 word) - unat seen = Suc n \<Longrightarrow> unat c - unat (seen + 1) = n"
proof -
  show "unat c - unat seen = 0 \<Longrightarrow> \<not> seen < c" by (simp add: word_less_nat_alt)
  show lt: "unat c - unat seen = Suc n \<Longrightarrow> seen < c" by (simp add: word_less_nat_alt)
  show "unat c - unat seen = Suc n \<Longrightarrow> unat c - unat (seen + 1) = n"
    using unat_plus_1[OF lt] by simp
qed

lemma refill_sum_loop_eq_aux:
  "unat (scRefillCount sc) - unat seen = n \<Longrightarrow>
   refill_sum_loop sc acc cur seen iters =
     (acc + sum_list (map (\<lambda>i. rAmount (refill_index sc i)) (refill_indices sc cur n)), iters + n)"
proof (induction n arbitrary: acc cur seen iters)
  case 0
  then show ?case
    by (subst refill_sum_loop.simps) (simp add: loop_guard_remaining(1))
next
  case (Suc n)
  note lt = loop_guard_remaining(2)[OF Suc.prems] and rem = loop_guard_remaining(3)[OF Suc.prems]
  show ?case
    by (subst refill_sum_loop.simps) (simp add: lt Suc.IH[OF rem] add.assoc)
qed

lemma refill_sum_list: "refill_sum sc = sum_list (map rAmount (refill_list sc))"
  by (simp add: refill_sum_def refill_sum_loop_eq_aux[OF refl] refill_list_def comp_def)

lemma refill_at_least_min_budget_loop_aux:
  "unat (scRefillCount sc) - unat seen = n \<Longrightarrow>
   fst (refill_at_least_min_budget_loop plat sc cur seen iters) =
     list_all (\<lambda>i. MIN_BUDGET plat \<le> rAmount (refill_index sc i)) (refill_indices sc cur n) \<and>
   snd (refill_at_least_min_budget_loop plat sc cur seen iters) \<le> iters + n \<and>
   (fst (refill_at_least_min_budget_loop plat sc cur seen iters) \<longrightarrow>
    snd (refill_at_least_min_budget_loop plat sc cur seen iters) = iters + n)"
proof (induction n arbitrary: cur seen iters)
  case 0
  then show ?case
    by (subst (1 2 3 4) refill_at_least_min_budget_loop.simps) (simp add: loop_guard_remaining(1))
next
  case (Suc n)
  note lt = loop_guard_remaining(2)[OF Suc.prems] and rem = loop_guard_remaining(3)[OF Suc.prems]
  show ?case
    using Suc.IH[OF rem, of "refill_next sc cur" "Suc iters"]
    by (subst (1 2 3 4) refill_at_least_min_budget_loop.simps) (simp add: lt)
qed

lemma refill_ordered_disjoint_loop_aux:
  "unat (scRefillCount sc) - unat seen = n \<Longrightarrow>
   fst (refill_ordered_disjoint_loop sc cur (refill_next sc cur) seen iters) =
     ordered_disjoint_list (map (refill_index sc) (refill_indices sc cur (Suc n))) \<and>
   snd (refill_ordered_disjoint_loop sc cur (refill_next sc cur) seen iters) \<le> iters + n \<and>
   (fst (refill_ordered_disjoint_loop sc cur (refill_next sc cur) seen iters) \<longrightarrow>
    snd (refill_ordered_disjoint_loop sc cur (refill_next sc cur) seen iters) = iters + n)"
proof (induction n arbitrary: cur seen iters)
  case 0
  then show ?case
    by (subst (1 2 3 4) refill_ordered_disjoint_loop.simps) (simp add: loop_guard_remaining(1))
next
  case (Suc n)
  note lt = loop_guard_remaining(2)[OF Suc.prems] and rem = loop_guard_remaining(3)[OF Suc.prems]
  show ?case
    using Suc.IH[OF rem, of "refill_next sc cur" "Suc iters"]
    by (subst (1 2 3 4) refill_ordered_disjoint_loop.simps) (simp add: lt)
qed

lemma refill_at_least_min_budget_list:
  "refill_at_least_min_budget plat sc \<longleftrightarrow> list_all (\<lambda>r. MIN_BUDGET plat \<le> rAmount r) (refill_list sc)"
  by (simp add: refill_at_least_min_budget_def refill_at_least_min_budget_loop_aux[OF refl]
      refill_list_def list_all_iff)

lemma refill_ordered_disjoint_list:
  "refill_ordered_disjoint sc \<longleftrightarrow> ordered_disjoint_list (refill_list sc)"
proof (cases "unat (scRefillCount sc)")
  case 0
  then have "\<not> 1 < scRefillCount sc" by (simp add: word_less_nat_alt)
  with 0 show ?thesis
    by (simp add: refill_ordered_disjoint_def refill_list_def)
       (subst refill_ordered_disjoint_loop.simps, simp)
next
  case (Suc n)
  then have "unat (scRefillCount sc) - unat (1::64 word) = n" by simp
  from refill_ordered_disjoint_loop_aux[OF this, of "scRefillHead sc" 0] Suc
  show ?thesis by (simp add: refill_ordered_disjoint_def refill_list_def)
qed




subsection \<open>\<open>schedule_used\<close> on the list\<close>

lemma unat_lt_2p64: "unat (w::64 word) < 2 ^ 64"
  using unsigned_less[of w, where ?'a = nat] by simp

lemma ring_wf_updates [simp]:
  "ring_wf (refill_index_update sc i f) = ring_wf sc"
  "ring_wf (REFILL_HEAD_update sc f) = ring_wf sc"
  "ring_wf (REFILL_TAIL_update sc f) = ring_wf sc"
  "ring_wf ((refill_index_update sc i f)\<lparr>scRefillCount := c\<rparr>) = ring_wf (sc\<lparr>scRefillCount := c\<rparr>)"
  "ring_wf ((REFILL_TAIL_update sc f)\<lparr>scRefillCount := c\<rparr>) = ring_wf (sc\<lparr>scRefillCount := c\<rparr>)"
  by (simp_all add: ring_wf_def REFILL_HEAD_update_def REFILL_TAIL_update_def refill_index_update_def)

lemma head_tail_update_fields [simp]:
  "scRefillMax (REFILL_HEAD_update sc f) = scRefillMax sc"
  "scRefillHead (REFILL_HEAD_update sc f) = scRefillHead sc"
  "scRefillCount (REFILL_HEAD_update sc f) = scRefillCount sc"
  "scPeriod (REFILL_HEAD_update sc f) = scPeriod sc"
  "scBudget (REFILL_HEAD_update sc f) = scBudget sc"
  "scRefillMax (REFILL_TAIL_update sc f) = scRefillMax sc"
  "scRefillHead (REFILL_TAIL_update sc f) = scRefillHead sc"
  "scRefillCount (REFILL_TAIL_update sc f) = scRefillCount sc"
  "scPeriod (REFILL_TAIL_update sc f) = scPeriod sc"
  "scBudget (REFILL_TAIL_update sc f) = scBudget sc"
  by (simp_all add: REFILL_HEAD_update_def REFILL_TAIL_update_def)

lemma add_tail_fields [simp]:
  "scRefillMax (refill_add_tail sc r) = scRefillMax sc"
  "scRefillHead (refill_add_tail sc r) = scRefillHead sc"
  "scRefillCount (refill_add_tail sc r) = scRefillCount sc + 1"
  "scPeriod (refill_add_tail sc r) = scPeriod sc"
  "scBudget (refill_add_tail sc r) = scBudget sc"
  by (simp_all add: refill_add_tail_def Let_def)

lemma pop_head_fields [simp]:
  "scRefillMax (snd (refill_pop_head sc)) = scRefillMax sc"
  "scRefillHead (snd (refill_pop_head sc)) = refill_next sc (scRefillHead sc)"
  "scRefillCount (snd (refill_pop_head sc)) = scRefillCount sc - 1"
  "scPeriod (snd (refill_pop_head sc)) = scPeriod sc"
  "scBudget (snd (refill_pop_head sc)) = scBudget sc"
  by (simp_all add: refill_pop_head_def Let_def)

lemma schedule_used_fields [simp]:
  "scRefillMax (schedule_used plat sc new) = scRefillMax sc"
  "scRefillHead (schedule_used plat sc new) = scRefillHead sc"
  "scPeriod (schedule_used plat sc new) = scPeriod sc"
  "scBudget (schedule_used plat sc new) = scBudget sc"
  by (simp_all add: schedule_used_def Let_def)

lemma schedule_used_refill_list:
  assumes wf: "ring_wf sc" and ne: "scRefillCount sc \<noteq> 0"
      and wf': "\<not> refill_full sc \<Longrightarrow> ring_wf (sc\<lparr>scRefillCount := scRefillCount sc + 1\<rparr>)"
  shows "refill_list (schedule_used plat sc new) =
         schedule_used_list (MIN_BUDGET plat) (refill_full sc) (refill_list sc) new"
proof -
  have nem: "\<not> refill_empty sc" using ne by (simp add: refill_empty_def)
  have tl: "REFILL_TAIL sc = last (refill_list sc)" using wf ne by (rule REFILL_TAIL_last)
  have lt: "scRefillCount sc < scRefillMax sc" if "\<not> refill_full sc"
    using that wf by (auto simp: refill_full_def ring_wf_def)
  show ?thesis
  proof (cases "schedule_used_splits plat sc new")
    case True
    then have nf: "\<not> refill_full sc" by (simp add: schedule_used_splits_def)
    let ?f = "\<lambda>r. r\<lparr>rAmount := rAmount r - (MIN_BUDGET plat - rAmount new)\<rparr>"
    have "refill_list (refill_add_tail (REFILL_TAIL_update sc ?f)
            \<lparr>rTime = rTime new - (MIN_BUDGET plat - rAmount new), rAmount = MIN_BUDGET plat\<rparr>)
          = refill_list (REFILL_TAIL_update sc ?f)
            @ [\<lparr>rTime = rTime new - (MIN_BUDGET plat - rAmount new), rAmount = MIN_BUDGET plat\<rparr>]"
      using lt[OF nf] wf'[OF nf] by (intro refill_list_add_tail) simp_all
    then show ?thesis
      using True
      by (simp add: schedule_used_split[OF nem True] refill_list_tail_update[OF wf ne]
          schedule_used_list_def schedule_used_splits_def tl)
  next
    case nsplit: False
    show ?thesis
    proof (cases "rAmount new < MIN_BUDGET plat \<or> refill_full sc")
      case True
      let ?sc = "REFILL_TAIL_update sc (\<lambda>r. r\<lparr>rTime := rTime new - rAmount r\<rparr>)"
      have "ring_wf ?sc" "scRefillCount ?sc \<noteq> 0" using wf ne by simp_all
      then have "refill_list (REFILL_TAIL_update ?sc (\<lambda>r. r\<lparr>rAmount := rAmount r + rAmount new\<rparr>))
          = butlast (refill_list ?sc) @ [(last (refill_list ?sc))\<lparr>rAmount := rAmount (last (refill_list ?sc)) + rAmount new\<rparr>]"
        by (rule refill_list_tail_update)
      then show ?thesis
        using True nsplit
        by (simp add: schedule_used_merge[OF nem nsplit True] refill_list_tail_update[OF wf ne]
            schedule_used_list_def schedule_used_splits_def tl)
    next
      case False
      then have nf: "\<not> refill_full sc" by simp
      have "refill_list (refill_add_tail sc new) = refill_list sc @ [new]"
        using lt[OF nf] wf'[OF nf] by (rule refill_list_add_tail)
      then show ?thesis
        using False nsplit
        by (simp add: schedule_used_push[OF nem False] schedule_used_list_def)
    qed
  qed
qed

lemma schedule_used_empty_list:
  assumes "scRefillHead sc < scRefillMax sc" "scRefillCount sc = 0"
  shows "refill_list (schedule_used plat sc new) = [new]"
    and "scRefillCount (schedule_used plat sc new) = 1"
proof -
  have e: "refill_empty sc" using assms(2) by (simp add: refill_empty_def)
  have "0 < unat (scRefillMax sc)" using assms(1) by (simp add: word_less_nat_alt)
  then have "(1::64 word) \<le> scRefillMax sc" "0 < scRefillMax sc"
    by (simp_all add: word_le_nat_alt word_less_nat_alt)
  moreover have "unat (scRefillHead sc) < unat (scRefillMax sc)"
    using assms(1) by (simp add: word_less_nat_alt)
  moreover have "unat (scRefillMax sc) < 2 ^ 64" using unsigned_less[of "scRefillMax sc", where ?'a = nat] by simp
  ultimately have wf: "ring_wf (sc\<lparr>scRefillCount := scRefillCount sc + 1\<rparr>)"
    using assms by (simp add: ring_wf_def)
  have "refill_list (refill_add_tail sc new) = refill_list sc @ [new]"
    using \<open>0 < scRefillMax sc\<close> assms(2) wf by (intro refill_list_add_tail) simp_all
  then show "refill_list (schedule_used plat sc new) = [new]"
    using assms(2) by (simp add: schedule_used_empty[OF e])
  show "scRefillCount (schedule_used plat sc new) = 1"
    using assms(2) by (simp add: schedule_used_empty[OF e])
qed

lemma schedule_used_count:
  "scRefillCount sc \<noteq> 0 \<Longrightarrow>
   scRefillCount (schedule_used plat sc new) =
     (if schedule_used_splits plat sc new \<or> \<not> (rAmount new < MIN_BUDGET plat \<or> refill_full sc)
      then scRefillCount sc + 1 else scRefillCount sc)"
  by (auto simp: schedule_used_def schedule_used_splits_def Let_def refill_empty_def)

lemma refill_all_within_period_list:
  assumes "ring_wf sc" "scRefillCount sc \<noteq> 0"
  shows "refill_all_within_period sc \<longleftrightarrow>
         rTime (last (refill_list sc)) + rAmount (last (refill_list sc)) - rTime (hd (refill_list sc))
           \<le> scPeriod sc"
  by (simp add: refill_all_within_period_def REFILL_TAIL_last[OF assms] REFILL_HEAD_hd[OF assms(2)])

lemma ring_wf_cong:
  "scRefillHead a = scRefillHead b \<Longrightarrow> scRefillCount a = scRefillCount b \<Longrightarrow>
   scRefillMax a = scRefillMax b \<Longrightarrow> ring_wf a = ring_wf b"
  by (simp add: ring_wf_def)

lemma ring_wf_schedule_used:
  assumes wf: "ring_wf sc" and ne: "scRefillCount sc \<noteq> 0"
      and wf': "\<not> refill_full sc \<Longrightarrow> ring_wf (sc\<lparr>scRefillCount := scRefillCount sc + 1\<rparr>)"
  shows "ring_wf (schedule_used plat sc new) \<and> scRefillCount (schedule_used plat sc new) \<noteq> 0"
proof (cases "schedule_used_splits plat sc new \<or> \<not> (rAmount new < MIN_BUDGET plat \<or> refill_full sc)")
  case True
  then have nf: "\<not> refill_full sc" by (auto simp: schedule_used_splits_def)
  from True have c: "scRefillCount (schedule_used plat sc new) = scRefillCount sc + 1"
    using ne by (simp add: schedule_used_count)
  then have "ring_wf (schedule_used plat sc new) = ring_wf (sc\<lparr>scRefillCount := scRefillCount sc + 1\<rparr>)"
    by (intro ring_wf_cong) simp_all
  moreover have "scRefillCount sc < scRefillMax sc"
    using nf wf by (auto simp: refill_full_def ring_wf_def)
  then have "scRefillCount sc + 1 \<noteq> 0"
    using unat_plus_1[of "scRefillCount sc" "scRefillMax sc"] by (metis Zero_not_Suc unat_eq_0)
  ultimately show ?thesis using wf'[OF nf] c by simp
next
  case False
  then have c: "scRefillCount (schedule_used plat sc new) = scRefillCount sc"
    using ne by (simp add: schedule_used_count)
  then have "ring_wf (schedule_used plat sc new) = ring_wf sc"
    by (intro ring_wf_cong) simp_all
  then show ?thesis using wf ne c by simp
qed

text \<open>What \<open>refill_update\<close> does once the queue is truncated to its head refill.\<close>

lemma not_le_1_word: "(m::64 word) \<noteq> 0 \<Longrightarrow> m \<noteq> 1 \<Longrightarrow> \<not> m \<le> 1"
proof -
  assume "m \<noteq> 0" "m \<noteq> 1"
  then have "unat m \<noteq> 0" "unat m \<noteq> 1" by (simp_all add: word_unat_eq_iff)
  then show ?thesis by (simp add: word_le_nat_alt)
qed

lemma refill_update_tail_step:
  fixes plat :: platform_t
  assumes f: "scRefillHead sc = 0" "scRefillCount sc = 1" "scRefillMax sc \<noteq> 0"
      and le: "new_budget \<le> scPeriod sc"
  defines "h \<equiv> REFILL_HEAD sc"
  defines "res \<equiv> (if new_budget \<le> rAmount h
                   then REFILL_HEAD_update sc (\<lambda>r. r\<lparr>rAmount := new_budget\<rparr>)
                   else schedule_used plat sc
                          \<lparr>rTime = rTime h + scPeriod sc - (new_budget - rAmount h),
                           rAmount = new_budget - rAmount h\<rparr>)"
  shows "refill_sum res = new_budget \<and> refill_all_within_period res"
proof -
  have M: "0 < scRefillMax sc" "1 \<le> scRefillMax sc"
    using f(3) by (simp_all add: word_gt_0 word_le_nat_alt unat_gt_0 Suc_leI)
  have wf: "ring_wf sc" using f M by (simp add: ring_wf_def)
  have ne: "scRefillCount sc \<noteq> 0" using f by simp
  have xs: "refill_list sc = [h]" using f by (simp add: refill_list_single h_def REFILL_HEAD_def)
  show ?thesis
  proof (cases "new_budget \<le> rAmount h")
    case True
    then have r: "res = REFILL_HEAD_update sc (\<lambda>r. r\<lparr>rAmount := new_budget\<rparr>)"
      by (simp add: res_def)
    have l: "refill_list res = [h\<lparr>rAmount := new_budget\<rparr>]"
      by (simp add: r refill_list_head_update[OF wf ne] xs)
    have "ring_wf res" "scRefillCount res \<noteq> 0" "scPeriod res = scPeriod sc"
      using wf ne by (simp_all add: r)
    then show ?thesis using le
      by (simp add: refill_sum_list refill_all_within_period_list l)
  next
    case False
    let ?u = "new_budget - rAmount h"
    let ?new = "\<lparr>rTime = rTime h + scPeriod sc - ?u, rAmount = ?u\<rparr>"
    from False have r: "res = schedule_used plat sc ?new" by (simp add: res_def)
    have wf': "ring_wf (sc\<lparr>scRefillCount := scRefillCount sc + 1\<rparr>)" if "\<not> refill_full sc"
    proof -
      from that f have "scRefillMax sc \<noteq> 1" by (auto simp: refill_full_def)
      then have "\<not> scRefillMax sc \<le> 1" using f(3) by (simp add: not_le_1_word)
      then have "2 \<le> scRefillMax sc" by unat_arith
      with f M show ?thesis by (simp add: ring_wf_def)
    qed
    have l: "refill_list res = schedule_used_list (MIN_BUDGET plat) (refill_full sc) [h] ?new"
      using schedule_used_refill_list[OF wf ne wf', of plat ?new] by (simp add: r xs)
    have "ring_wf res" "scRefillCount res \<noteq> 0"
      using ring_wf_schedule_used[OF wf ne wf', of plat ?new] by (simp_all add: r)
    moreover have "scPeriod res = scPeriod sc" by (simp add: r)
    ultimately show ?thesis using le
      by (simp add: refill_sum_list refill_all_within_period_list l schedule_used_list_def)
  qed
qed


subsection \<open>Arithmetic without wrap-around\<close>

lemma unat_add_nowrap: "unat (a::64 word) + unat b < 2 ^ 64 \<Longrightarrow> unat (a + b) = unat a + unat b"
  by (simp add: unat_add_lem[where 'a=64, simplified])

lemma unat_twice_nowrap: "2 * unat (m::64 word) < 2 ^ 64 \<Longrightarrow> unat (2 * m) = 2 * unat m"
proof -
  assume "2 * unat m < 2 ^ 64"
  then have "unat m + unat m < 2 ^ 64" by linarith
  then show ?thesis unfolding mult_2 by (rule unat_add_nowrap)
qed

lemma unat_sub_nat: "unat (b::64 word) \<le> unat a \<Longrightarrow> unat (a - b) = unat a - unat b"
  by (simp add: unat_sub word_le_nat_alt)


lemma split_arith:
  fixes ta na m tt nt :: "64 word"
  assumes lt: "na < m" and cond: "2 * m \<le> ta + na"
      and m2: "2 * unat m < 2 ^ 64"
      and tend: "unat tt + unat ta < 2 ^ 64"
      and ord: "tt + ta \<le> nt"
  shows "m \<le> ta - (m - na)"
    and "tt + (ta - (m - na)) \<le> nt - (m - na)"
    and "unat tt + unat (ta - (m - na)) < 2 ^ 64"
proof -
  define A N M T X where "A = unat ta" and "N = unat na" and "M = unat m" and "T = unat tt"
    and "X = unat nt"
  have NM: "N < M" using lt by (simp add: word_less_nat_alt N_def M_def)
  have r: "unat (m - na) = M - N" using NM by (simp add: unat_sub_nat N_def M_def)
  have "unat (2 * m) \<le> unat (ta + na)" using cond by (simp add: word_le_nat_alt)
  moreover have "unat (ta + na) \<le> A + N" unfolding A_def N_def by (rule unat_add_le_sum)
  moreover have "unat (2 * m) = 2 * M" unfolding M_def using m2 by (rule unat_twice_nowrap)
  ultimately have c: "2 * M \<le> A + N" by simp
  have TA: "T + A < 2 ^ 64" using tend by (simp add: T_def A_def)
  then have "unat (tt + ta) = T + A" unfolding T_def A_def by (rule unat_add_nowrap)
  then have o: "T + A \<le> X" using ord by (simp add: word_le_nat_alt X_def)
  have rA: "M - N \<le> A" using c NM by arith
  then have a': "unat (ta - (m - na)) = A - (M - N)"
    using r by (simp add: unat_sub_nat A_def)
  have rX: "M - N \<le> X" using rA o by arith
  then have x': "unat (nt - (m - na)) = X - (M - N)"
    using r by (simp add: unat_sub_nat X_def)
  have "M \<le> A - (M - N)" using c NM by arith
  then show "m \<le> ta - (m - na)" by (simp add: word_le_nat_alt a' M_def[symmetric])
  have lt2: "T + (A - (M - N)) < 2 ^ 64" using TA by arith
  then show "unat tt + unat (ta - (m - na)) < 2 ^ 64" by (simp add: a' T_def[symmetric])
  then have "unat (tt + (ta - (m - na))) = T + (A - (M - N))"
    by (simp add: unat_add_nowrap a' T_def[symmetric])
  moreover have "T + (A - (M - N)) \<le> X - (M - N)" using o rA by arith
  ultimately show "tt + (ta - (m - na)) \<le> nt - (m - na)"
    by (simp add: word_le_nat_alt x')
qed


lemma sum_list_butlast_last:
  "xs \<noteq> [] \<Longrightarrow> sum_list (map f xs) = sum_list (map f (butlast xs)) + (f (last xs) :: 64 word)"
  by (induction xs rule: rev_induct) simp_all

subsection \<open>Updates that change nothing\<close>

lemma refill_index_update_id_iff:
  "refill_index_update sc i f = sc \<longleftrightarrow> f (scRefills sc i) = scRefills sc i"
proof
  assume "refill_index_update sc i f = sc"
  then have "scRefills (refill_index_update sc i f) i = scRefills sc i" by simp
  then show "f (scRefills sc i) = scRefills sc i" by (simp add: refill_index_update_def)
next
  assume "f (scRefills sc i) = scRefills sc i"
  then show "refill_index_update sc i f = sc" by (simp add: refill_index_update_def)
qed

lemma refill_index_update_twice:
  "refill_index_update (refill_index_update sc i f) i g = refill_index_update sc i (\<lambda>r. g (f r))"
  by (simp add: refill_index_update_def)

lemma refill_tail_index_update [simp]:
  "refill_tail_index (refill_index_update sc i f) = refill_tail_index sc"
  by (simp add: refill_tail_index_def Let_def)

lemma word_shift_eq: "(a::64 word) - b = c \<longleftrightarrow> c + b = a"
  by auto

subsection \<open>The merging loop on the list\<close>

lemma unblock_merge_list_short: "length xs \<le> 1 \<Longrightarrow> unblock_merge_list nw xs = xs"
  by (cases xs; cases "tl xs") auto

lemma unat_refill_next_le: "i < scRefillMax sc \<Longrightarrow> unat (refill_next sc i) \<le> unat i + 1"
  by (simp add: unat_refill_next)

lemma ring_wf_pop_head:
  assumes "ring_wf sc" "scRefillCount sc \<noteq> 0"
  shows "ring_wf (snd (refill_pop_head sc))"
proof -
  have h: "scRefillHead sc < scRefillMax sc" using assms(1) by (simp add: ring_wf_def)
  have c: "unat (scRefillCount sc - 1) = unat (scRefillCount sc) - 1" "0 < unat (scRefillCount sc)"
    using assms(2) by (simp_all add: unat_minus_1 unat_gt_0)
  have "unat (scRefillCount sc) \<le> unat (scRefillMax sc)"
    using assms(1) by (simp add: ring_wf_def word_le_nat_alt)
  then have 1: "scRefillCount sc - 1 \<le> scRefillMax sc" using c by (simp add: word_le_nat_alt)
  have "unat (refill_next sc (scRefillHead sc)) + unat (scRefillCount sc - 1)
          \<le> unat (scRefillHead sc) + unat (scRefillCount sc)"
    using unat_refill_next_le[OF h] c by linarith
  moreover have "unat (scRefillHead sc) + unat (scRefillCount sc) < 2 ^ 64"
    using assms(1) by (simp add: ring_wf_def)
  ultimately have 2: "unat (refill_next sc (scRefillHead sc)) + unat (scRefillCount sc - 1) < 2 ^ 64"
    by linarith
  show ?thesis using 1 2 refill_next_less[OF h] by (simp add: ring_wf_def)
qed

lemma refill_list_two_or_more:
  assumes "1 < scRefillCount sc"
  shows "\<exists>rs. refill_list sc = REFILL_HEAD sc # refill_index sc (refill_next sc (scRefillHead sc)) # rs"
proof -
  from assms have "1 < unat (scRefillCount sc)" by (simp add: word_less_nat_alt)
  then have "\<exists>n. unat (scRefillCount sc) = Suc (Suc n)" by presburger
  then obtain n where "unat (scRefillCount sc) = Suc (Suc n)" ..
  then show ?thesis by (simp add: refill_list_def REFILL_HEAD_def)
qed

lemma unblock_loop_refill_list:
  "ring_wf sc \<Longrightarrow>
   refill_list (fst (refill_unblock_check_loop plat ns sc iters)) =
     unblock_merge_list (ksCurTime ns + kernelWcetTicks plat) (refill_list sc) \<and>
   ring_wf (fst (refill_unblock_check_loop plat ns sc iters)) \<and>
   scPeriod (fst (refill_unblock_check_loop plat ns sc iters)) = scPeriod sc \<and>
   scBudget (fst (refill_unblock_check_loop plat ns sc iters)) = scBudget sc \<and>
   scRefillMax (fst (refill_unblock_check_loop plat ns sc iters)) = scRefillMax sc"
proof (induction plat ns sc iters rule: refill_unblock_check_loop.induct)
  case (1 plat ns sc iters)
  let ?nw = "ksCurTime ns + kernelWcetTicks plat"
  show ?case
  proof (cases "1 < refill_size sc")
    case gt: True
    then have gt': "1 < scRefillCount sc" by (simp add: refill_size_def)
    then have ne: "scRefillCount sc \<noteq> 0" by auto
    let ?s = "refill_index sc (refill_next sc (scRefillHead sc))"
    obtain rs where xs: "refill_list sc = REFILL_HEAD sc # ?s # rs"
      using refill_list_two_or_more[OF gt'] ..
    show ?thesis
    proof (cases "rTime ?s \<le> rTime (REFILL_HEAD sc) + rAmount (REFILL_HEAD sc)")
      case True
      let ?sc1 = "snd (refill_pop_head sc)"
      let ?sc2 = "REFILL_HEAD_update ?sc1 (\<lambda>r. r\<lparr>rAmount := rAmount r + rAmount (REFILL_HEAD sc)\<rparr>)"
      let ?sc3 = "REFILL_HEAD_update ?sc2 (\<lambda>r. r\<lparr>rTime := ?nw\<rparr>)"
      have w1: "ring_wf ?sc1" using "1.prems" ne by (rule ring_wf_pop_head)
      have "unat (scRefillCount sc - 1) = unat (scRefillCount sc) - 1" using ne by (rule unat_minus_1)
      moreover have "1 < unat (scRefillCount sc)" using gt' by (simp add: word_less_nat_alt)
      ultimately have "unat (scRefillCount sc - 1) \<noteq> 0" by simp
      then have n1: "scRefillCount ?sc1 \<noteq> 0" by (simp add: unat_eq_0)
      have l1: "refill_list ?sc1 = ?s # rs"
        using refill_list_pop_head[OF ne] by (simp add: xs)
      have l2: "refill_list ?sc2 = ?s\<lparr>rAmount := rAmount ?s + rAmount (REFILL_HEAD sc)\<rparr> # rs"
        by (simp add: refill_list_head_update[OF w1 n1] l1)
      have w2: "ring_wf ?sc2" "scRefillCount ?sc2 \<noteq> 0" using w1 n1 by simp_all
      have l3: "refill_list ?sc3 =
          \<lparr>rTime = ?nw, rAmount = rAmount ?s + rAmount (REFILL_HEAD sc)\<rparr> # rs"
        by (simp add: refill_list_head_update[OF w2] l2)
      have w3: "ring_wf ?sc3" using w2 by simp
      have step: "refill_unblock_check_loop plat ns sc iters =
                  refill_unblock_check_loop plat ns ?sc3 (Suc iters)"
        using gt True by (rule unblock_loop_step)
      have IH: "refill_list (fst (refill_unblock_check_loop plat ns ?sc3 (Suc iters))) =
          unblock_merge_list ?nw (refill_list ?sc3) \<and>
          ring_wf (fst (refill_unblock_check_loop plat ns ?sc3 (Suc iters))) \<and>
          scPeriod (fst (refill_unblock_check_loop plat ns ?sc3 (Suc iters))) = scPeriod ?sc3 \<and>
          scBudget (fst (refill_unblock_check_loop plat ns ?sc3 (Suc iters))) = scBudget ?sc3 \<and>
          scRefillMax (fst (refill_unblock_check_loop plat ns ?sc3 (Suc iters))) = scRefillMax ?sc3"
        using gt True w3 by (intro "1.IH"[OF _ refl refl _ refl refl refl]) simp_all
      have "unblock_merge_list ?nw (refill_list sc) = unblock_merge_list ?nw (refill_list ?sc3)"
        using True by (simp add: xs l3)
      with IH show ?thesis by (simp add: step)
    next
      case False
      then have stop: "refill_unblock_check_loop plat ns sc iters = (sc, iters)"
        by (intro unblock_loop_stop) simp
      have "unblock_merge_list ?nw (refill_list sc) = refill_list sc"
        using False by (simp add: xs)
      with "1.prems" show ?thesis by (simp add: stop)
    qed
  next
    case False
    then have stop: "refill_unblock_check_loop plat ns sc iters = (sc, iters)"
      by (intro unblock_loop_stop) simp
    from False have "unat (scRefillCount sc) \<le> 1"
      by (simp add: refill_size_def word_less_nat_alt)
    then have "length (refill_list sc) \<le> 1" by simp
    then have "unblock_merge_list ?nw (refill_list sc) = refill_list sc"
      by (rule unblock_merge_list_short)
    with "1.prems" show ?thesis by (simp add: stop)
  qed
qed

lemma amounts_total_simps [simp]:
  "amounts_total [] = 0"
  "amounts_total (r # xs) = unat (rAmount r) + amounts_total xs"
  "amounts_total (xs @ ys) = amounts_total xs + amounts_total ys"
  by (simp_all add: amounts_total_def)

lemma unblock_merge_list_head:
  "xs \<noteq> [] \<Longrightarrow> rTime (hd xs) = nw \<Longrightarrow> \<forall>r\<in>set xs. m \<le> rAmount r \<Longrightarrow>
   amounts_total xs < 2 ^ 64 \<Longrightarrow>
   unblock_merge_list nw xs \<noteq> [] \<and> rTime (hd (unblock_merge_list nw xs)) = nw \<and>
   m \<le> rAmount (hd (unblock_merge_list nw xs))"
proof (induction nw xs rule: unblock_merge_list.induct)
  case (1 nw h s rs)
  show ?case
  proof (cases "rTime s \<le> rTime h + rAmount h")
    case True
    let ?r = "\<lparr>rTime = nw, rAmount = rAmount s + rAmount h\<rparr>"
    from "1.prems"(4) have "unat (rAmount s) + unat (rAmount h) < 2 ^ 64" by simp
    then have u: "unat (rAmount s + rAmount h) = unat (rAmount s) + unat (rAmount h)"
      by (rule unat_add_nowrap)
    from "1.prems"(3) have "unat m \<le> unat (rAmount s)" by (simp add: word_le_nat_alt)
    with u have "m \<le> rAmount ?r" by (simp add: word_le_nat_alt)
    with "1.prems"(3) have a: "\<forall>r\<in>set (?r # rs). m \<le> rAmount r" by simp
    have t: "amounts_total (?r # rs) < 2 ^ 64" using "1.prems"(4) u by simp
    from "1.IH"[OF True _ _ a t] True show ?thesis by simp
  next
    case False
    with "1.prems" show ?thesis by simp
  qed
qed simp_all

subsection \<open>The invariants over the natural numbers\<close>

lemma before_trans: "before a b \<Longrightarrow> before b c \<Longrightarrow> before a c"
  by (simp add: before_def refill_end_def)

lemma ordered_disjoint_list_sorted:
  "\<forall>r\<in>set xs. refill_end r < 2 ^ 64 \<Longrightarrow>
   ordered_disjoint_list xs \<longleftrightarrow> sorted_wrt before xs"
proof (induction xs rule: ordered_disjoint_list.induct)
  case (1 r s rs)
  from "1.prems" have "unat (rTime r) + unat (rAmount r) < 2 ^ 64" by (simp add: refill_end_def)
  then have "unat (rTime r + rAmount r) = refill_end r"
    by (simp add: unat_add_nowrap refill_end_def)
  then have w: "rTime r + rAmount r \<le> rTime s \<longleftrightarrow> before r s"
    by (simp add: word_le_nat_alt before_def)
  have IH: "ordered_disjoint_list (s # rs) \<longleftrightarrow> sorted_wrt before (s # rs)"
    using "1.prems" by (intro "1.IH") simp
  have "before r s \<and> sorted_wrt before (s # rs) \<longrightarrow> (\<forall>z\<in>set rs. before r z)"
    by (auto intro: before_trans)
  with w IH show ?case by auto
qed simp_all

lemma chained_total_le:
  "chained xs \<Longrightarrow> xs \<noteq> [] \<Longrightarrow> unat (rTime (hd xs)) + amounts_total xs \<le> refill_end (last xs)"
proof (induction xs)
  case Nil
  then show ?case by simp
next
  case (Cons x xs)
  show ?case
  proof (cases xs)
    case Nil
    then show ?thesis by (simp add: refill_end_def)
  next
    case (Cons y ys)
    with Cons.prems have "chained xs" "before x (hd xs)"
      by (simp_all add: chained_def)
    with Cons.IH Cons have "unat (rTime (hd xs)) + amounts_total xs \<le> refill_end (last xs)"
      by simp
    with \<open>before x (hd xs)\<close> Cons show ?thesis
      by (simp add: before_def refill_end_def)
  qed
qed

lemma unat_sum_list_amounts:
  "amounts_total xs < 2 ^ 64 \<Longrightarrow> unat (sum_list (map rAmount xs)) = amounts_total xs"
proof (induction xs)
  case Nil
  then show ?case by simp
next
  case (Cons x xs)
  then have "unat (sum_list (map rAmount xs)) = amounts_total xs" by simp
  with Cons.prems show ?case by (simp add: unat_add_nowrap)
qed

lemma valid_refills_bounds:
  assumes "valid_refills m P B xs"
  shows "B \<le> P" and "refill_end (last xs) < 2 ^ 64" and "unat (rTime (hd xs)) \<le> refill_end (last xs)"
    and "m \<le> B" and "m \<le> unat (rAmount (hd xs))"
proof -
  from assms have c: "chained xs" "xs \<noteq> []" and t: "amounts_total xs = B"
    and w: "refill_end (last xs) \<le> unat (rTime (hd xs)) + P"
    and a: "\<forall>r\<in>set xs. m \<le> unat (rAmount r)"
    by (simp_all add: valid_refills_def)
  from chained_total_le[OF c] t w show "B \<le> P" by simp
  from c show "refill_end (last xs) < 2 ^ 64" by (simp add: chained_def)
  from chained_total_le[OF c] show "unat (rTime (hd xs)) \<le> refill_end (last xs)" by simp
  from c a show "m \<le> unat (rAmount (hd xs))" by simp
  moreover have "unat (rAmount (hd xs)) \<le> amounts_total xs"
    using c(2) by (cases xs) simp_all
  ultimately show "m \<le> B" using t by simp
qed

lemma window_word_nat:
  fixes tt ta ht P :: "64 word"
  assumes "unat tt + unat ta < 2 ^ 64" "unat ht \<le> unat tt + unat ta"
  shows "tt + ta - ht \<le> P \<longleftrightarrow> unat tt + unat ta \<le> unat ht + unat P"
proof -
  have e: "unat (tt + ta) = unat tt + unat ta" using assms(1) by (rule unat_add_nowrap)
  with assms(2) have "unat (tt + ta - ht) = unat tt + unat ta - unat ht"
    by (simp add: unat_sub_nat)
  with assms(2) show ?thesis by (simp add: word_le_nat_alt) linarith
qed

lemma invariants_valid:
  assumes rw: "ring_wf sc" and ne: "scRefillCount sc \<noteq> 0"
      and inv: "universal_invariants plat sc" and no: "refills_no_overflow sc"
  shows "valid_refills (unat (MIN_BUDGET plat)) (unat (scPeriod sc)) (unat (scBudget sc)) (refill_list sc)"
proof -
  let ?xs = "refill_list sc"
  have nn: "?xs \<noteq> []" using ne by simp
  have ends: "\<forall>r\<in>set ?xs. refill_end r < 2 ^ 64"
    using no by (simp add: refills_no_overflow_def list_all_iff)
  have "ordered_disjoint_list ?xs"
    using inv by (simp add: universal_invariants_def refill_ordered_disjoint_list)
  then have ch: "chained ?xs"
    using ends by (simp add: chained_def ordered_disjoint_list_sorted)
  have min: "\<forall>r\<in>set ?xs. unat (MIN_BUDGET plat) \<le> unat (rAmount r)"
    using inv by (simp add: universal_invariants_def refill_at_least_min_budget_list list_all_iff
        word_le_nat_alt)
  have le: "unat (rTime (hd ?xs)) + amounts_total ?xs \<le> refill_end (last ?xs)"
    using ch nn by (rule chained_total_le)
  have lend: "refill_end (last ?xs) < 2 ^ 64" using ends nn by simp
  have "refill_all_within_period sc" using inv by (simp add: universal_invariants_def)
  then have "rTime (last ?xs) + rAmount (last ?xs) - rTime (hd ?xs) \<le> scPeriod sc"
    by (simp add: refill_all_within_period_list[OF rw ne])
  then have win: "refill_end (last ?xs) \<le> unat (rTime (hd ?xs)) + unat (scPeriod sc)"
    using lend le by (subst (asm) window_word_nat) (simp_all add: refill_end_def)
  have "amounts_total ?xs \<le> unat (scPeriod sc)" using le win by linarith
  moreover have "unat (scPeriod sc) < 2 ^ 64" by (rule unat_lt_2p64)
  ultimately have "amounts_total ?xs < 2 ^ 64" by linarith
  then have "unat (sum_list (map rAmount ?xs)) = amounts_total ?xs" by (rule unat_sum_list_amounts)
  moreover have "sum_list (map rAmount ?xs) = scBudget sc"
    using inv by (simp add: universal_invariants_def refill_sum_to_budget_def refill_sum_list)
  ultimately have tot: "amounts_total ?xs = unat (scBudget sc)" by simp
  show ?thesis using nn ch min tot win by (simp add: valid_refills_def)
qed

lemma valid_invariants:
  assumes rw: "ring_wf sc"
      and v: "valid_refills (unat (MIN_BUDGET plat)) (unat (scPeriod sc)) (unat (scBudget sc)) (refill_list sc)"
  shows "universal_invariants plat sc \<and> refills_no_overflow sc \<and> scRefillCount sc \<noteq> 0"
proof -
  let ?xs = "refill_list sc"
  from v have nn: "?xs \<noteq> []" and ch: "chained ?xs"
    and min: "\<forall>r\<in>set ?xs. unat (MIN_BUDGET plat) \<le> unat (rAmount r)"
    and tot: "amounts_total ?xs = unat (scBudget sc)"
    and win: "refill_end (last ?xs) \<le> unat (rTime (hd ?xs)) + unat (scPeriod sc)"
    by (simp_all add: valid_refills_def)
  have ne: "scRefillCount sc \<noteq> 0" using nn by simp
  have ends: "\<forall>r\<in>set ?xs. refill_end r < 2 ^ 64" using ch by (simp add: chained_def)
  have p1: "refill_ordered_disjoint sc"
    using ch ends by (simp add: refill_ordered_disjoint_list ordered_disjoint_list_sorted chained_def)
  have p2: "refill_at_least_min_budget plat sc"
    using min by (simp add: refill_at_least_min_budget_list list_all_iff word_le_nat_alt)
  have "amounts_total ?xs < 2 ^ 64" using tot unat_lt_2p64[of "scBudget sc"] by simp
  then have "unat (sum_list (map rAmount ?xs)) = unat (scBudget sc)"
    using tot by (simp add: unat_sum_list_amounts)
  then have p3: "refill_sum_to_budget sc"
    by (simp add: refill_sum_to_budget_def refill_sum_list word_unat_eq_iff)
  have le: "unat (rTime (hd ?xs)) + amounts_total ?xs \<le> refill_end (last ?xs)"
    using ch nn by (rule chained_total_le)
  have lend: "refill_end (last ?xs) < 2 ^ 64" using ends nn by simp
  have "rTime (last ?xs) + rAmount (last ?xs) - rTime (hd ?xs) \<le> scPeriod sc"
    using lend le win by (subst window_word_nat) (simp_all add: refill_end_def)
  then have p4: "refill_all_within_period sc"
    by (simp add: refill_all_within_period_list[OF rw ne])
  have p5: "scRefillCount sc \<le> scRefillMax sc" using rw by (simp add: ring_wf_def)
  show ?thesis using p1 p2 p3 p4 p5 ends ne
    by (simp add: universal_invariants_def refills_no_overflow_def list_all_iff)
qed

lemma split_arith_nat:
  fixes ta na m nt :: "64 word"
  assumes lt: "na < m" and cond: "2 * m \<le> ta + na"
      and m2: "2 * unat m < 2 ^ 64"
      and ord: "unat ta \<le> unat nt"
  shows "unat (ta - (m - na)) + unat m = unat ta + unat na"
    and "unat (nt - (m - na)) + unat m = unat nt + unat na"
    and "unat m \<le> unat (ta - (m - na))"
proof -
  define A N M X where "A = unat ta" and "N = unat na" and "M = unat m" and "X = unat nt"
  have NM: "N < M" using lt by (simp add: word_less_nat_alt N_def M_def)
  have r: "unat (m - na) = M - N" using NM by (simp add: unat_sub_nat N_def M_def)
  have "unat (2 * m) \<le> unat (ta + na)" using cond by (simp add: word_le_nat_alt)
  moreover have "unat (ta + na) \<le> A + N" unfolding A_def N_def by (rule unat_add_le_sum)
  moreover have "unat (2 * m) = 2 * M" unfolding M_def using m2 by (rule unat_twice_nowrap)
  ultimately have c: "2 * M \<le> A + N" by simp
  have AX: "A \<le> X" using ord by (simp add: A_def X_def)
  have rA: "M - N \<le> A" using c NM by arith
  then have a': "unat (ta - (m - na)) = A - (M - N)"
    using r by (simp add: unat_sub_nat A_def)
  have rX: "M - N \<le> X" using rA AX by arith
  then have x': "unat (nt - (m - na)) = X - (M - N)"
    using r by (simp add: unat_sub_nat X_def)
  show "unat (ta - (m - na)) + unat m = unat ta + unat na"
    unfolding a' A_def[symmetric] N_def[symmetric] M_def[symmetric] using c NM by arith
  show "unat (nt - (m - na)) + unat m = unat nt + unat na"
    unfolding x' X_def[symmetric] N_def[symmetric] M_def[symmetric] using rX NM by arith
  show "unat m \<le> unat (ta - (m - na))"
    unfolding a' M_def[symmetric] using c NM by arith
qed

lemma chained_snoc:
  "chained (ys @ [t]) \<longleftrightarrow>
     chained ys \<and> (\<forall>y\<in>set ys. before y t) \<and> refill_end t < 2 ^ 64"
  by (auto simp: chained_def sorted_wrt_append)

lemma chained_snoc2:
  "chained (ys @ [t, n]) \<longleftrightarrow>
     chained ys \<and> (\<forall>y\<in>set ys. before y t \<and> before y n) \<and> before t n \<and>
     refill_end t < 2 ^ 64 \<and> refill_end n < 2 ^ 64"
  by (auto simp: chained_def sorted_wrt_append)

lemma hd_snoc_time:
  "rTime t' = rTime t \<Longrightarrow> rTime (hd (ys @ t' # zs)) = rTime (hd (ys @ [t]))"
  by (cases ys) simp_all

lemma schedule_used_list_valid:
  fixes m :: "64 word"
  assumes ch: "chained xs" and nn: "xs \<noteq> []"
      and min: "\<forall>r\<in>set xs. unat m \<le> unat (rAmount r)"
      and lastb: "refill_end (last xs) \<le> unat (rTime new)"
      and newend: "refill_end new < 2 ^ 64"
      and win: "refill_end new \<le> unat (rTime (hd xs)) + P"
      and tot: "amounts_total xs + unat (rAmount new) \<le> P"
      and m2: "2 * unat m < 2 ^ 64"
  shows "valid_refills (unat m) P (amounts_total xs + unat (rAmount new))
           (schedule_used_list m full xs new)"
proof -
  from nn obtain ys t where xs: "xs = ys @ [t]" by (cases xs rule: rev_cases) auto
  define tt ta nt na where "tt = unat (rTime t)" and "ta = unat (rAmount t)"
    and "nt = unat (rTime new)" and "na = unat (rAmount new)"
  from ch have cys: "chained ys" and bys: "\<forall>y\<in>set ys. before y t" and tend: "tt + ta < 2 ^ 64"
    by (simp_all add: xs chained_snoc refill_end_def tt_def ta_def)
  from min have mys: "\<forall>r\<in>set ys. unat m \<le> unat (rAmount r)" and mt: "unat m \<le> ta"
    by (simp_all add: xs ta_def)
  from lastb have ord: "tt + ta \<le> nt" by (simp add: xs refill_end_def tt_def ta_def nt_def)
  from newend have ne': "nt + na < 2 ^ 64" by (simp add: refill_end_def nt_def na_def)
  have byt: "\<forall>y\<in>set ys. refill_end y \<le> tt" using bys by (simp add: before_def tt_def)
  have win': "nt + na \<le> unat (rTime (hd (ys @ [t]))) + P"
    using win by (simp add: xs refill_end_def nt_def na_def)
  have tot': "amounts_total ys + ta + na \<le> P" using tot by (simp add: xs ta_def na_def)
  show ?thesis
  proof (cases "rAmount new < m \<and> \<not> full \<and> 2 * m \<le> rAmount (last xs) + rAmount new")
    case True
    let ?rem = "m - rAmount new"
    let ?t' = "t\<lparr>rAmount := rAmount t - ?rem\<rparr>"
    let ?n' = "\<lparr>rTime = rTime new - ?rem, rAmount = m\<rparr>"
    have res: "schedule_used_list m full xs new = ys @ [?t', ?n']"
      using True by (simp add: schedule_used_list_def xs)
    from True have lt: "rAmount new < m" and c: "2 * m \<le> rAmount t + rAmount new"
      by (simp_all add: xs)
    have "unat (rAmount t) \<le> unat (rTime new)" using ord by (simp add: ta_def nt_def)
    note ar = split_arith_nat[OF lt c m2 this]
    have e1: "unat (rAmount t - ?rem) + unat m = ta + na" using ar(1) by (simp add: ta_def na_def)
    have e2: "unat (rTime new - ?rem) + unat m = nt + na" using ar(2) by (simp add: nt_def na_def)
    have e3: "unat m \<le> unat (rAmount t - ?rem)" by (rule ar(3))
    have nm: "na < unat m" using lt by (simp add: word_less_nat_alt na_def)
    have t'end: "refill_end ?t' \<le> tt + ta" "refill_end ?t' \<le> unat (rTime ?n')"
      "refill_end ?t' < 2 ^ 64"
      using e1 e2 e3 ord tend nm by (simp_all add: refill_end_def tt_def[symmetric])
    have n'end: "refill_end ?n' = nt + na" using e2 by (simp add: refill_end_def)
    have byn: "\<forall>y\<in>set ys. before y ?t' \<and> before y ?n'"
      using byt t'end(2) by (auto simp: before_def refill_end_def tt_def[symmetric])
    have 1: "chained (ys @ [?t', ?n'])"
      unfolding chained_snoc2 using cys byn t'end n'end ne' by (simp add: before_def)
    have 2: "\<forall>r\<in>set (ys @ [?t', ?n']). unat m \<le> unat (rAmount r)"
      using mys e3 by simp
    have 3: "amounts_total (ys @ [?t', ?n']) = amounts_total xs + unat (rAmount new)"
      using e1 by (simp add: xs ta_def na_def)
    have "rTime (hd (ys @ ?t' # [?n'])) = rTime (hd (ys @ [t]))" by (rule hd_snoc_time) simp
    then have 4: "refill_end (last (ys @ [?t', ?n'])) \<le> unat (rTime (hd (ys @ [?t', ?n']))) + P"
      using win' n'end by simp
    show ?thesis unfolding res valid_refills_def using 1 2 3 4 by simp
  next
    case nsplit: False
    show ?thesis
    proof (cases "rAmount new < m \<or> full")
      case True
      let ?r = "\<lparr>rTime = rTime new - rAmount t, rAmount = rAmount t + rAmount new\<rparr>"
      have res: "schedule_used_list m full xs new = ys @ [?r]"
        using True nsplit by (simp add: schedule_used_list_def xs)
      have "unat (rAmount t) \<le> unat (rTime new)" using ord by (simp add: ta_def nt_def)
      then have r1: "unat (rTime ?r) = nt - ta" by (simp add: unat_sub_nat nt_def ta_def)
      have "unat (rAmount t) + unat (rAmount new) < 2 ^ 64" using ord ne' by (simp add: ta_def na_def)
      then have r2: "unat (rAmount ?r) = ta + na" by (simp add: unat_add_nowrap ta_def na_def)
      have rend: "refill_end ?r = nt + na" using r1 r2 ord by (simp add: refill_end_def)
      have byr: "\<forall>y\<in>set ys. before y ?r"
        using byt r1 ord by (auto simp: before_def)
      have 1: "chained (ys @ [?r])"
        unfolding chained_snoc using cys byr rend ne' by simp
      have 2: "\<forall>r\<in>set (ys @ [?r]). unat m \<le> unat (rAmount r)"
        using mys mt r2 by simp
      have 3: "amounts_total (ys @ [?r]) = amounts_total xs + unat (rAmount new)"
        using r2 by (simp add: xs ta_def na_def)
      have 4: "refill_end (last (ys @ [?r])) \<le> unat (rTime (hd (ys @ [?r]))) + P"
      proof (cases ys)
        case Nil
        then show ?thesis using rend r1 ord tot' by simp
      next
        case (Cons y ys')
        then show ?thesis using rend win' by simp
      qed
      show ?thesis unfolding res valid_refills_def using 1 2 3 4 by simp
    next
      case False
      then have res: "schedule_used_list m full xs new = ys @ [t, new]"
        using nsplit by (simp add: schedule_used_list_def xs)
      from False have mn: "unat m \<le> na" by (simp add: word_less_nat_alt na_def)
      have byn: "\<forall>y\<in>set ys. before y t \<and> before y new"
        using bys byt ord by (auto simp: before_def nt_def[symmetric])
      have btn: "before t new" using ord by (simp add: before_def refill_end_def tt_def ta_def nt_def)
      have 1: "chained (ys @ [t, new])"
        unfolding chained_snoc2 using cys byn btn tend newend
        by (simp add: refill_end_def tt_def ta_def)
      have 2: "\<forall>r\<in>set (ys @ [t, new]). unat m \<le> unat (rAmount r)"
        using mys mt mn by (simp add: ta_def na_def)
      have 3: "amounts_total (ys @ [t, new]) = amounts_total xs + unat (rAmount new)"
        by (simp add: xs)
      have "rTime (hd (ys @ t # [new])) = rTime (hd (ys @ [t]))" by (rule hd_snoc_time) simp
      then have 4: "refill_end (last (ys @ [t, new])) \<le> unat (rTime (hd (ys @ [t, new]))) + P"
        using win' by (simp add: refill_end_def nt_def na_def)
      show ?thesis unfolding res valid_refills_def using 1 2 3 4 by simp
    qed
  qed
qed

lemma ring_wf_succ:
  assumes "ring_wf s" "unat (scRefillMax s) \<le> 2 ^ 63" "\<not> refill_full s"
  shows "ring_wf (s\<lparr>scRefillCount := scRefillCount s + 1\<rparr>)"
proof -
  from assms(1,3) have lt: "scRefillCount s < scRefillMax s"
    by (auto simp: ring_wf_def refill_full_def)
  have u: "unat (scRefillCount s + 1) = Suc (unat (scRefillCount s))" using lt by (rule unat_plus_1)
  have h: "unat (scRefillHead s) < unat (scRefillMax s)" "unat (scRefillCount s) < unat (scRefillMax s)"
    using assms(1) lt by (simp_all add: ring_wf_def word_less_nat_alt)
  then have "unat (scRefillHead s) + Suc (unat (scRefillCount s)) < 2 ^ 64"
    using assms(2) by simp
  moreover have "scRefillCount s + 1 \<le> scRefillMax s" using u h by (simp add: word_le_nat_alt)
  ultimately show ?thesis using assms(1) u by (simp add: ring_wf_def)
qed

lemma ring_wf_single:
  assumes "scRefillHead s < scRefillMax s" "scRefillCount s = 1"
  shows "ring_wf s"
proof -
  have h: "unat (scRefillHead s) < unat (scRefillMax s)"
    using assms(1) by (simp add: word_less_nat_alt)
  moreover have "unat (scRefillMax s) < 2 ^ 64" by (rule unat_lt_2p64)
  ultimately have "unat (scRefillHead s) + 1 < 2 ^ 64" by simp
  moreover from h have "1 \<le> scRefillMax s" by (simp add: word_le_nat_alt)
  ultimately show ?thesis using assms by (simp add: ring_wf_def)
qed

lemma single_refill_invariants:
  assumes rw: "ring_wf s" and l: "refill_list s = [r]" and b: "rAmount r = scBudget s"
      and m: "MIN_BUDGET plat \<le> scBudget s" and p: "scBudget s \<le> scPeriod s"
  shows "universal_invariants plat s \<and> scRefillCount s \<noteq> 0"
proof -
  have ne: "scRefillCount s \<noteq> 0" using l by (metis list.distinct(1) refill_list_eq_Nil)
  have "refill_all_within_period s"
    using p b by (simp add: refill_all_within_period_list[OF rw ne] l)
  moreover have "scRefillCount s \<le> scRefillMax s" using rw by (simp add: ring_wf_def)
  ultimately show ?thesis using ne m b
    by (simp add: universal_invariants_def refill_ordered_disjoint_list
        refill_at_least_min_budget_list refill_sum_to_budget_def refill_sum_list l)
qed

lemma schedule_used_invariants:
  assumes rw: "ring_wf s" and mx: "unat (scRefillMax s) \<le> 2 ^ 63"
      and nn: "refill_list s \<noteq> []"
      and ch: "chained (refill_list s)"
      and min: "\<forall>r\<in>set (refill_list s). unat (MIN_BUDGET plat) \<le> unat (rAmount r)"
      and lastb: "refill_end (last (refill_list s)) \<le> unat (rTime new)"
      and newend: "refill_end new < 2 ^ 64"
      and win: "refill_end new \<le> unat (rTime (hd (refill_list s))) + unat (scPeriod s)"
      and tot: "amounts_total (refill_list s) + unat (rAmount new) = unat (scBudget s)"
      and bp: "unat (scBudget s) \<le> unat (scPeriod s)"
      and m2: "2 * unat (MIN_BUDGET plat) < 2 ^ 64"
  shows "universal_invariants plat (schedule_used plat s new) \<and>
         scRefillCount (schedule_used plat s new) \<noteq> 0"
proof -
  have ne: "scRefillCount s \<noteq> 0" using nn by simp
  have rw': "\<not> refill_full s \<Longrightarrow> ring_wf (s\<lparr>scRefillCount := scRefillCount s + 1\<rparr>)"
    using rw mx by (rule ring_wf_succ)
  have l: "refill_list (schedule_used plat s new) =
           schedule_used_list (MIN_BUDGET plat) (refill_full s) (refill_list s) new"
    using rw ne rw' by (rule schedule_used_refill_list)
  have w: "ring_wf (schedule_used plat s new)"
    using ring_wf_schedule_used[OF rw ne rw'] by simp
  have "valid_refills (unat (MIN_BUDGET plat)) (unat (scPeriod s))
          (amounts_total (refill_list s) + unat (rAmount new))
          (schedule_used_list (MIN_BUDGET plat) (refill_full s) (refill_list s) new)"
    using ch nn min lastb newend win _ m2
    by (rule schedule_used_list_valid) (use tot bp in simp)
  then have "valid_refills (unat (MIN_BUDGET plat)) (unat (scPeriod (schedule_used plat s new)))
          (unat (scBudget (schedule_used plat s new))) (refill_list (schedule_used plat s new))"
    by (simp add: l tot)
  with w show ?thesis using valid_invariants by blast
qed

lemma budget_check_fields [simp]:
  "scRefillMax (refill_budget_check plat ns sc usage) = scRefillMax sc"
  "scPeriod (refill_budget_check plat ns sc usage) = scPeriod sc"
  "scBudget (refill_budget_check plat ns sc usage) = scBudget sc"
  by (simp_all add: refill_budget_check_def Let_def)

lemma budget_check_overrun_list:
  assumes "scRefillHead sc < scRefillMax sc"
      and "\<not> refill_ready plat ns sc \<or> rAmount (REFILL_HEAD sc) < usage"
  shows "scRefillCount (refill_budget_check plat ns sc usage) = 1 \<and>
         scRefillHead (refill_budget_check plat ns sc usage) = scRefillHead sc \<and>
         refill_list (refill_budget_check plat ns sc usage) =
           [\<lparr>rTime = rTime (REFILL_HEAD sc) + scPeriod sc + usage, rAmount = scBudget sc\<rparr>]"
proof -
  let ?used = "\<lparr>rTime = rTime (REFILL_HEAD sc) + scPeriod sc + usage, rAmount = scBudget sc\<rparr>"
  let ?sc0 = "sc\<lparr>scRefillCount := 0\<rparr>"
  from assms(2) have eq: "refill_budget_check plat ns sc usage = refill_add_tail ?sc0 ?used"
    by (auto simp: refill_budget_check_def Let_def schedule_used_def refill_empty_def)
  have ti: "refill_tail_index (sc\<lparr>scRefillCount := 1\<rparr>) = scRefillHead sc"
  proof -
    from assms(1) have "\<not> scRefillMax sc \<le> scRefillHead sc" by simp
    then show ?thesis by (simp add: refill_tail_index_def Let_def)
  qed
  show ?thesis
    unfolding eq
    by (simp add: refill_add_tail_def Let_def REFILL_TAIL_update_def ti refill_list_single
        refill_index_refill_index_update)
qed

lemma budget_check_exact:
  "refill_ready plat ns sc \<Longrightarrow> usage = rAmount (REFILL_HEAD sc) \<Longrightarrow>
   refill_budget_check plat ns sc usage =
     schedule_used plat (snd (refill_pop_head sc))
       \<lparr>rTime = rTime (REFILL_HEAD sc) + scPeriod sc, rAmount = usage\<rparr>"
  by (simp add: refill_budget_check_def Let_def)

lemma budget_check_trim:
  "refill_ready plat ns sc \<Longrightarrow> usage < rAmount (REFILL_HEAD sc) \<Longrightarrow>
   MIN_BUDGET plat \<le> rAmount (REFILL_HEAD sc) - usage \<Longrightarrow>
   refill_budget_check plat ns sc usage =
     schedule_used plat
       (REFILL_HEAD_update
          (REFILL_HEAD_update sc (\<lambda>r. r\<lparr>rAmount := rAmount (REFILL_HEAD sc) - usage\<rparr>))
          (\<lambda>r. r\<lparr>rTime := rTime r + usage\<rparr>))
       \<lparr>rTime = rTime (REFILL_HEAD sc) + scPeriod sc, rAmount = usage\<rparr>"
  by (auto simp: refill_budget_check_def Let_def)

lemma budget_check_donate_empty:
  "refill_ready plat ns sc \<Longrightarrow> usage < rAmount (REFILL_HEAD sc) \<Longrightarrow>
   \<not> MIN_BUDGET plat \<le> rAmount (REFILL_HEAD sc) - usage \<Longrightarrow>
   refill_empty (snd (refill_pop_head sc)) \<Longrightarrow>
   refill_budget_check plat ns sc usage =
     schedule_used plat (snd (refill_pop_head sc))
       \<lparr>rTime = rTime (REFILL_HEAD sc) + scPeriod sc - (rAmount (REFILL_HEAD sc) - usage),
        rAmount = usage + (rAmount (REFILL_HEAD sc) - usage)\<rparr>"
  by (auto simp: refill_budget_check_def Let_def)

lemma budget_check_donate:
  "refill_ready plat ns sc \<Longrightarrow> usage < rAmount (REFILL_HEAD sc) \<Longrightarrow>
   \<not> MIN_BUDGET plat \<le> rAmount (REFILL_HEAD sc) - usage \<Longrightarrow>
   \<not> refill_empty (snd (refill_pop_head sc)) \<Longrightarrow>
   refill_budget_check plat ns sc usage =
     schedule_used plat
       (REFILL_HEAD_update
          (REFILL_HEAD_update (snd (refill_pop_head sc))
             (\<lambda>r. r\<lparr>rTime := rTime r - (rAmount (REFILL_HEAD sc) - usage)\<rparr>))
          (\<lambda>r. r\<lparr>rAmount := rAmount r + (rAmount (REFILL_HEAD sc) - usage)\<rparr>))
       \<lparr>rTime = rTime (REFILL_HEAD sc) + scPeriod sc, rAmount = usage\<rparr>"
  by (auto simp: refill_budget_check_def Let_def)

lemma chained_hd_replace:
  "chained (h # rs) \<Longrightarrow> refill_end h' = refill_end h \<Longrightarrow> chained (h' # rs)"
  by (simp add: chained_def before_def)

lemma last_end_hd_replace:
  "refill_end h' = refill_end h \<Longrightarrow> refill_end (last (h' # rs)) = refill_end (last (h # rs))"
  by simp

lemma chained_tl: "chained (h # rs) \<Longrightarrow> chained rs"
  by (simp add: chained_def)

lemma budget_check_invariants:
  assumes wf: "sc_wf sc" and ne: "scRefillCount sc \<noteq> 0"
      and inv: "universal_invariants plat sc" and no: "refills_no_overflow sc"
      and bc: "unat (rTime (REFILL_HEAD sc)) + unat (scPeriod sc) + unat (rAmount (REFILL_HEAD sc)) < 2 ^ 64"
  shows "universal_invariants plat (refill_budget_check plat ns sc usage) \<and>
         scRefillCount (refill_budget_check plat ns sc usage) \<noteq> 0"
proof -
  let ?h = "REFILL_HEAD sc"
  let ?M = "MIN_BUDGET plat"
  have le: "scRefillCount sc \<le> scRefillMax sc" using inv by (simp add: universal_invariants_def)
  have rw: "ring_wf sc" using wf le by (rule ring_wfI)
  have hm: "scRefillHead sc < scRefillMax sc" and mx: "unat (scRefillMax sc) \<le> 2 ^ 63"
    using wf by (simp_all add: sc_wf_def)
  have V: "valid_refills (unat ?M) (unat (scPeriod sc)) (unat (scBudget sc)) (refill_list sc)"
    using rw ne inv no by (rule invariants_valid)
  obtain rs where xs: "refill_list sc = ?h # rs"
    using ne REFILL_HEAD_hd[OF ne] by (cases "refill_list sc") simp_all
  define t a P B M where "t = unat (rTime ?h)" and "a = unat (rAmount ?h)"
    and "P = unat (scPeriod sc)" and "B = unat (scBudget sc)" and "M = unat ?M"
  note nats = t_def a_def P_def B_def M_def
  have ch: "chained (?h # rs)" and min: "\<forall>r\<in>set (?h # rs). M \<le> unat (rAmount r)"
    and tot: "a + amounts_total rs = B"
    and win: "refill_end (last (?h # rs)) \<le> t + P"
    using V unfolding xs valid_refills_def nats by simp_all
  have BP: "B \<le> P" and MB: "M \<le> B" and Ma: "M \<le> a"
    using valid_refills_bounds[OF V] unfolding xs nats by simp_all
  have bc': "t + P + a < 2 ^ 64" using bc by (simp add: nats)
  have m2: "2 * M < 2 ^ 64" using bc' Ma MB BP by simp
  have tP: "unat (rTime ?h + scPeriod sc) = t + P"
    unfolding nats by (rule unat_add_nowrap) (use bc in simp)
  have eh: "refill_end ?h = t + a" by (simp add: refill_end_def nats)
  have mbw: "?M \<le> scBudget sc" using MB by (simp add: word_le_nat_alt nats)
  have bpw: "scBudget sc \<le> scPeriod sc" using BP by (simp add: word_le_nat_alt nats)
  have rw1: "ring_wf (snd (refill_pop_head sc))" using rw ne by (rule ring_wf_pop_head)
  have l1: "refill_list (snd (refill_pop_head sc)) = rs"
    using refill_list_pop_head[OF ne] by (simp add: xs)
  have hm1: "scRefillHead (snd (refill_pop_head sc)) < scRefillMax (snd (refill_pop_head sc))"
    using rw1 by (simp add: ring_wf_def)
  have single: "universal_invariants plat (schedule_used plat (snd (refill_pop_head sc)) new) \<and>
                scRefillCount (schedule_used plat (snd (refill_pop_head sc)) new) \<noteq> 0"
    if e: "rs = []" and b: "rAmount new = scBudget sc" for new
  proof -
    let ?s = "schedule_used plat (snd (refill_pop_head sc)) new"
    have c0: "scRefillCount (snd (refill_pop_head sc)) = 0"
      using l1 e by (metis refill_list_eq_Nil)
    have l: "refill_list ?s = [new]" and c: "scRefillCount ?s = 1"
      using schedule_used_empty_list[OF hm1 c0] by simp_all
    have "scRefillHead ?s < scRefillMax ?s" using hm1 by simp
    then have "ring_wf ?s" using c by (rule ring_wf_single)
    then show ?thesis using l
      by (rule single_refill_invariants) (use b mbw bpw in simp_all)
  qed
  show ?thesis
  proof (cases "\<not> refill_ready plat ns sc \<or> rAmount ?h < usage")
    case True
    let ?s = "refill_budget_check plat ns sc usage"
    from budget_check_overrun_list[OF hm True]
    have c: "scRefillCount ?s = 1" and h: "scRefillHead ?s = scRefillHead sc"
      and l: "refill_list ?s = [\<lparr>rTime = rTime ?h + scPeriod sc + usage, rAmount = scBudget sc\<rparr>]"
      by simp_all
    have "scRefillHead ?s < scRefillMax ?s" using hm h by simp
    then have "ring_wf ?s" using c by (rule ring_wf_single)
    then show ?thesis using l
      by (rule single_refill_invariants) (use mbw bpw in simp_all)
  next
    case False
    then have rdy: "refill_ready plat ns sc" and ule: "usage \<le> rAmount ?h"
      by (simp_all add: not_less)
    define u where "u = unat usage"
    have ua: "u \<le> a" using ule by (simp add: word_le_nat_alt u_def nats)
    show ?thesis
    proof (cases "usage = rAmount ?h")
      case True
      let ?new = "\<lparr>rTime = rTime ?h + scPeriod sc, rAmount = usage\<rparr>"
      have eq: "refill_budget_check plat ns sc usage = schedule_used plat (snd (refill_pop_head sc)) ?new"
        using rdy True by (rule budget_check_exact)
      have uaeq: "u = a" using True by (simp add: u_def nats)
      show ?thesis
      proof (cases "rs = []")
        case True
        have "rAmount ?new = scBudget sc"
          using tot True uaeq by (simp add: u_def nats word_unat_eq_iff)
        with True show ?thesis unfolding eq by (rule single)
      next
        case nn: False
        have "before ?h (hd rs)" using ch nn by (cases rs) (simp_all add: chained_def)
        then have hb: "t + a \<le> unat (rTime (hd rs))" by (simp add: before_def eh)
        show ?thesis unfolding eq
        proof (rule schedule_used_invariants[OF rw1])
          show "unat (scRefillMax (snd (refill_pop_head sc))) \<le> 2 ^ 63" using mx by simp
          show "refill_list (snd (refill_pop_head sc)) \<noteq> []" using nn by (simp only: l1 not_False_eq_True)
          show "chained (refill_list (snd (refill_pop_head sc)))"
            using ch unfolding l1 by (rule chained_tl)
          show "\<forall>r\<in>set (refill_list (snd (refill_pop_head sc))). unat ?M \<le> unat (rAmount r)"
            using min unfolding l1 by (simp add: nats)
          show "refill_end (last (refill_list (snd (refill_pop_head sc)))) \<le> unat (rTime ?new)"
            using win nn unfolding l1 by (simp add: tP)
          show "refill_end ?new < 2 ^ 64"
            using bc' uaeq by (simp add: refill_end_def tP u_def)
          show "refill_end ?new \<le> unat (rTime (hd (refill_list (snd (refill_pop_head sc))))) +
                  unat (scPeriod (snd (refill_pop_head sc)))"
            using hb uaeq unfolding l1 by (simp add: refill_end_def tP u_def P_def)
          show "amounts_total (refill_list (snd (refill_pop_head sc))) + unat (rAmount ?new) =
                unat (scBudget (snd (refill_pop_head sc)))"
            using tot uaeq unfolding l1 by (simp add: u_def B_def)
          show "unat (scBudget (snd (refill_pop_head sc))) \<le> unat (scPeriod (snd (refill_pop_head sc)))"
            using BP by (simp add: nats)
          show "2 * unat ?M < 2 ^ 64" using m2 by (simp add: nats)
        qed
      qed
    next
      case False
      with ule have ult: "usage < rAmount ?h" by simp
      then have ua': "u < a" by (simp add: word_less_nat_alt u_def nats)
      have rem: "unat (rAmount ?h - usage) = a - u"
        unfolding nats u_def by (rule unat_sub_nat) (use ua in \<open>simp add: u_def nats\<close>)
      let ?new = "\<lparr>rTime = rTime ?h + scPeriod sc, rAmount = usage\<rparr>"
      have newend: "refill_end ?new < 2 ^ 64"
        using bc' ua by (simp add: refill_end_def tP u_def)
      show ?thesis
      proof (cases "?M \<le> rAmount ?h - usage")
        case True
        let ?f = "\<lambda>r. r\<lparr>rAmount := rAmount ?h - usage\<rparr>"
        let ?g = "\<lambda>r. r\<lparr>rTime := rTime r + usage\<rparr>"
        let ?s = "REFILL_HEAD_update (REFILL_HEAD_update sc ?f) ?g"
        let ?h' = "?g (?f ?h)"
        have eq: "refill_budget_check plat ns sc usage = schedule_used plat ?s ?new"
          using rdy ult True by (rule budget_check_trim)
        have rws: "ring_wf ?s" using rw by simp
        have ls: "refill_list ?s = ?h' # rs"
          using rw ne by (simp add: refill_list_head_update xs)
        have th': "unat (rTime ?h') = t + u"
        proof -
          have "unat (rTime ?h + usage) = unat (rTime ?h) + unat usage"
            by (rule unat_add_nowrap) (use bc' ua in \<open>simp add: u_def nats\<close>)
          then show ?thesis by (simp add: nats u_def)
        qed
        have ah': "unat (rAmount ?h') = a - u" using rem by simp
        have eh': "refill_end ?h' = refill_end ?h"
          unfolding refill_end_def th' ah' using ua by (simp add: nats)
        show ?thesis unfolding eq
        proof (rule schedule_used_invariants[OF rws])
          show "unat (scRefillMax ?s) \<le> 2 ^ 63" using mx by simp
          show "refill_list ?s \<noteq> []" by (simp only: ls list.distinct not_False_eq_True)
          show "chained (refill_list ?s)" unfolding ls using ch eh' by (rule chained_hd_replace)
          have "M \<le> a - u" using True by (simp add: word_le_nat_alt rem M_def)
          then show "\<forall>r\<in>set (refill_list ?s). unat ?M \<le> unat (rAmount r)"
            using min unfolding ls by (simp add: M_def rem)
          have "refill_end (last (?h' # rs)) = refill_end (last (?h # rs))"
            using eh' by (rule last_end_hd_replace)
          then show "refill_end (last (refill_list ?s)) \<le> unat (rTime ?new)"
            using win unfolding ls by (simp add: tP)
          show "refill_end ?new < 2 ^ 64" by (rule newend)
          show "refill_end ?new \<le> unat (rTime (hd (refill_list ?s))) + unat (scPeriod ?s)"
            unfolding ls using th' by (simp add: refill_end_def tP u_def P_def)
          show "amounts_total (refill_list ?s) + unat (rAmount ?new) = unat (scBudget ?s)"
            unfolding ls using tot ua rem by (simp add: u_def B_def a_def)
          show "unat (scBudget ?s) \<le> unat (scPeriod ?s)" using BP by (simp add: nats)
          show "2 * unat ?M < 2 ^ 64" using m2 by (simp add: nats)
        qed
      next
        case small: False
        let ?r = "rAmount ?h - usage"
        show ?thesis
        proof (cases "rs = []")
          case True
          then have e: "refill_empty (snd (refill_pop_head sc))"
            using l1 by (simp add: refill_empty_def)
          let ?n2 = "\<lparr>rTime = rTime ?h + scPeriod sc - ?r, rAmount = usage + ?r\<rparr>"
          have eq: "refill_budget_check plat ns sc usage =
                    schedule_used plat (snd (refill_pop_head sc)) ?n2"
            using rdy ult small e by (rule budget_check_donate_empty)
          have "unat (rAmount ?h) = unat (scBudget sc)" using tot True by (simp add: nats)
          then have "rAmount ?n2 = scBudget sc" by (simp add: word_unat_eq_iff)
          with True show ?thesis unfolding eq by (rule single)
        next
          case nn: False
          then obtain s rs' where rs: "rs = s # rs'" by (cases rs) simp_all
          have ne1: "scRefillCount (snd (refill_pop_head sc)) \<noteq> 0"
            using l1 nn by (metis refill_list_eq_Nil)
          then have e: "\<not> refill_empty (snd (refill_pop_head sc))" by (simp add: refill_empty_def)
          let ?f = "\<lambda>r. r\<lparr>rTime := rTime r - ?r\<rparr>"
          let ?g = "\<lambda>r. r\<lparr>rAmount := rAmount r + ?r\<rparr>"
          let ?s = "REFILL_HEAD_update (REFILL_HEAD_update (snd (refill_pop_head sc)) ?f) ?g"
          let ?s' = "?g (?f s)"
          have eq: "refill_budget_check plat ns sc usage = schedule_used plat ?s ?new"
            using rdy ult small e by (rule budget_check_donate)
          have rws: "ring_wf ?s" using rw1 by simp
          have ls: "refill_list ?s = ?s' # rs'"
            using rw1 ne1 by (simp add: refill_list_head_update l1 rs)
          have "before ?h s" using ch by (simp add: chained_def rs)
          then have hb: "t + a \<le> unat (rTime s)" by (simp add: before_def eh)
          have es: "refill_end s < 2 ^ 64" using ch by (simp add: chained_def rs)
          have ts': "unat (rTime ?s') = unat (rTime s) - (a - u)"
          proof -
            have "unat (rTime s - ?r) = unat (rTime s) - unat ?r"
              by (rule unat_sub_nat) (use hb rem in simp)
            then show ?thesis by (simp add: rem)
          qed
          have as': "unat (rAmount ?s') = unat (rAmount s) + (a - u)"
          proof -
            have "unat (rAmount s + ?r) = unat (rAmount s) + unat ?r"
              by (rule unat_add_nowrap) (use hb es rem in \<open>simp add: refill_end_def\<close>)
            then show ?thesis by (simp add: rem)
          qed
          have es': "refill_end ?s' = refill_end s"
            unfolding refill_end_def ts' as' using hb by simp
          have chs: "chained (s # rs')" using ch unfolding rs by (rule chained_tl)
          show ?thesis unfolding eq
          proof (rule schedule_used_invariants[OF rws])
            show "unat (scRefillMax ?s) \<le> 2 ^ 63" using mx by simp
            show "refill_list ?s \<noteq> []" by (simp only: ls list.distinct not_False_eq_True)
            show "chained (refill_list ?s)" unfolding ls using chs es' by (rule chained_hd_replace)
            show "\<forall>r\<in>set (refill_list ?s). unat ?M \<le> unat (rAmount r)"
              using min as' unfolding ls rs by (simp add: M_def)
            have "refill_end (last (?s' # rs')) = refill_end (last (s # rs'))"
              using es' by (rule last_end_hd_replace)
            then show "refill_end (last (refill_list ?s)) \<le> unat (rTime ?new)"
              using win unfolding ls rs by (simp add: tP)
            show "refill_end ?new < 2 ^ 64" by (rule newend)
            show "refill_end ?new \<le> unat (rTime (hd (refill_list ?s))) + unat (scPeriod ?s)"
              unfolding ls using ts' hb ua by (simp add: refill_end_def tP u_def P_def)
            show "amounts_total (refill_list ?s) + unat (rAmount ?new) = unat (scBudget ?s)"
              unfolding ls using tot ua as' unfolding rs by (simp add: u_def B_def a_def)
            show "unat (scBudget ?s) \<le> unat (scPeriod ?s)" using BP by (simp add: nats)
            show "2 * unat ?M < 2 ^ 64" using m2 by (simp add: nats)
          qed
        qed
      qed
    qed
  qed
qed

lemma chained_Cons:
  assumes "chained (s # rs)" "before h s" "refill_end h < 2 ^ 64"
  shows "chained (h # s # rs)"
proof -
  have "before h r" if "r \<in> set rs" for r
  proof -
    from assms(1) that have "before s r" by (simp add: chained_def)
    with assms(2) show ?thesis by (simp add: before_def refill_end_def)
  qed
  with assms show ?thesis by (simp add: chained_def)
qed

lemma unblock_merge_list_valid:
  assumes "rTime h = nw" and "chained rs" and "\<forall>r\<in>set (h # rs). M \<le> unat (rAmount r)"
      and "amounts_total (h # rs) = B" and "unat nw + B < 2 ^ 64" and "B \<le> P"
      and "rs \<noteq> [] \<Longrightarrow> refill_end (last rs) \<le> unat nw + P"
  shows "valid_refills M P B (unblock_merge_list nw (h # rs))"
  using assms
proof (induction rs arbitrary: h)
  case Nil
  then show ?case by (simp add: valid_refills_def chained_def refill_end_def)
next
  case (Cons s rs)
  have hs: "unat (rAmount h) + unat (rAmount s) \<le> B" using Cons.prems(4) by simp
  then have nh: "unat nw + unat (rAmount h) < 2 ^ 64" using Cons.prems(5) by simp
  have eh: "unat (rTime h + rAmount h) = unat nw + unat (rAmount h)"
    unfolding Cons.prems(1) using nh by (rule unat_add_nowrap)
  show ?case
  proof (cases "rTime s \<le> rTime h + rAmount h")
    case True
    let ?h' = "\<lparr>rTime = nw, rAmount = rAmount s + rAmount h\<rparr>"
    have am: "unat (rAmount s + rAmount h) = unat (rAmount s) + unat (rAmount h)"
      by (rule unat_add_nowrap) (use hs Cons.prems(5) in simp)
    have "valid_refills M P B (unblock_merge_list nw (?h' # rs))"
    proof (rule Cons.IH)
      show "rTime ?h' = nw" by simp
      show "chained rs" using Cons.prems(2) by (rule chained_tl)
      show "\<forall>r\<in>set (?h' # rs). M \<le> unat (rAmount r)" using Cons.prems(3) am by simp
      show "amounts_total (?h' # rs) = B" using Cons.prems(4) am by simp
      show "unat nw + B < 2 ^ 64" by (rule Cons.prems(5))
      show "B \<le> P" by (rule Cons.prems(6))
      show "refill_end (last rs) \<le> unat nw + P" if "rs \<noteq> []"
        using Cons.prems(7) that by simp
    qed
    with True show ?thesis by simp
  next
    case False
    then have "unat (rTime h + rAmount h) < unat (rTime s)" by (simp add: word_le_nat_alt)
    then have "unat nw + unat (rAmount h) < unat (rTime s)" by (simp only: eh)
    then have b: "before h s" by (simp add: before_def refill_end_def Cons.prems(1))
    have "refill_end h < 2 ^ 64" using nh by (simp add: refill_end_def Cons.prems(1))
    with Cons.prems(2) b have "chained (h # s # rs)" by (rule chained_Cons)
    moreover have "refill_end (last (s # rs)) \<le> unat nw + P" using Cons.prems(7) by simp
    ultimately show ?thesis using False Cons.prems(1,3,4)
      by (simp add: valid_refills_def)
  qed
qed

lemma unblock_check_invariants:
  assumes wf: "sc_wf sc" and ne: "scRefillCount sc \<noteq> 0"
      and inv: "universal_invariants plat sc" and no: "refills_no_overflow sc"
      and uc: "unat (ksCurTime ns + kernelWcetTicks plat) + unat (scBudget sc) < 2 ^ 64"
  shows "universal_invariants plat (snd (refill_unblock_check plat ns sc)) \<and>
         scRefillCount (snd (refill_unblock_check plat ns sc)) \<noteq> 0"
proof (cases "\<not> isRoundRobin plat sc \<and> refill_ready plat ns sc")
  case False
  then have "snd (refill_unblock_check plat ns sc) = sc"
    by (auto simp: refill_unblock_check_def)
  with inv ne show ?thesis by simp
next
  case True
  let ?nw = "ksCurTime ns + kernelWcetTicks plat"
  let ?h = "REFILL_HEAD sc"
  let ?s1 = "REFILL_HEAD_update sc (\<lambda>r. r\<lparr>rTime := ?nw\<rparr>)"
  let ?s = "fst (refill_unblock_check_loop plat ns ?s1 0)"
  have eq: "snd (refill_unblock_check plat ns sc) = ?s"
    using True by (simp add: refill_unblock_check_def Let_def)
  have le: "scRefillCount sc \<le> scRefillMax sc" using inv by (simp add: universal_invariants_def)
  have rw: "ring_wf sc" using wf le by (rule ring_wfI)
  have V: "valid_refills (unat (MIN_BUDGET plat)) (unat (scPeriod sc)) (unat (scBudget sc)) (refill_list sc)"
    using rw ne inv no by (rule invariants_valid)
  obtain rs where xs: "refill_list sc = ?h # rs"
    using ne REFILL_HEAD_hd[OF ne] by (cases "refill_list sc") simp_all
  have ch: "chained (?h # rs)"
    and min: "\<forall>r\<in>set (?h # rs). unat (MIN_BUDGET plat) \<le> unat (rAmount r)"
    and tot: "amounts_total (?h # rs) = unat (scBudget sc)"
    and win: "refill_end (last (?h # rs)) \<le> unat (rTime ?h) + unat (scPeriod sc)"
    using V unfolding xs valid_refills_def by simp_all
  have BP: "unat (scBudget sc) \<le> unat (scPeriod sc)"
    using valid_refills_bounds(1)[OF V] .
  have rdy: "unat (rTime ?h) \<le> unat ?nw"
    using True by (simp add: refill_ready_def word_le_nat_alt)
  have rw1: "ring_wf ?s1" using rw by simp
  let ?h' = "?h\<lparr>rTime := ?nw\<rparr>"
  have l1: "refill_list ?s1 = ?h' # rs"
    using rw ne by (simp add: refill_list_head_update xs)
  from unblock_loop_refill_list[OF rw1, of plat ns 0]
  have l: "refill_list ?s = unblock_merge_list ?nw (?h' # rs)"
    and rws: "ring_wf ?s" and p: "scPeriod ?s = scPeriod sc" and b: "scBudget ?s = scBudget sc"
    by (simp_all add: l1)
  have "valid_refills (unat (MIN_BUDGET plat)) (unat (scPeriod sc)) (unat (scBudget sc))
          (unblock_merge_list ?nw (?h' # rs))"
  proof (rule unblock_merge_list_valid)
    show "rTime ?h' = ?nw" by simp
    show "chained rs" using ch by (rule chained_tl)
    show "\<forall>r\<in>set (?h' # rs). unat (MIN_BUDGET plat) \<le> unat (rAmount r)" using min by simp
    show "amounts_total (?h' # rs) = unat (scBudget sc)" using tot by simp
    show "unat ?nw + unat (scBudget sc) < 2 ^ 64" by (rule uc)
    show "unat (scBudget sc) \<le> unat (scPeriod sc)" by (rule BP)
    show "refill_end (last rs) \<le> unat ?nw + unat (scPeriod sc)" if "rs \<noteq> []"
      using win rdy that by simp
  qed
  then have "valid_refills (unat (MIN_BUDGET plat)) (unat (scPeriod ?s)) (unat (scBudget ?s))
          (refill_list ?s)"
    by (simp only: l p b)
  with rws have "universal_invariants plat ?s \<and> refills_no_overflow ?s \<and> scRefillCount ?s \<noteq> 0"
    by (rule valid_invariants)
  then show ?thesis unfolding eq by simp
qed

section \<open>Queries\<close>

text \<open>
  Claim C8.  \<open>refill_capacity sc usage\<close> is \<open>max 0 (head.amount - usage)\<close> computed over
  the integers: it is 0 whenever \<open>usage\<close> exceeds the head amount and the unsigned
  subtraction never wraps.  \<open>refill_sufficient\<close> holds exactly when that capacity is at
  least \<open>MIN_BUDGET\<close>.  Both C functions contain no assignment through \<open>sc\<close>; they are
  embedded as functions that return a value only, so there is no updated context that
  could differ from \<open>sc\<close>.
\<close>

theorem refill_capacity_sufficient_spec:
  "uint (refill_capacity sc usage) = max 0 (uint (rAmount (REFILL_HEAD sc)) - uint usage) \<and>
   (refill_sufficient plat sc usage \<longleftrightarrow> MIN_BUDGET plat \<le> refill_capacity sc usage)"
proof -
  have "uint (refill_capacity sc usage) = max 0 (uint (rAmount (REFILL_HEAD sc)) - uint usage)"
  proof (cases "rAmount (REFILL_HEAD sc) < usage")
    case True
    then have "uint (rAmount (REFILL_HEAD sc)) < uint usage" by (simp add: word_less_def)
    with True show ?thesis by (simp add: refill_capacity_def)
  next
    case False
    then have "usage \<le> rAmount (REFILL_HEAD sc)" by simp
    then have "uint (rAmount (REFILL_HEAD sc) - usage) = uint (rAmount (REFILL_HEAD sc)) - uint usage"
      by (simp add: uint_sub_lem word_le_def)
    moreover have "uint usage \<le> uint (rAmount (REFILL_HEAD sc))"
      using \<open>usage \<le> rAmount (REFILL_HEAD sc)\<close> by (simp add: word_le_def)
    ultimately show ?thesis using False by (simp add: refill_capacity_def)
  qed
  then show ?thesis by (simp add: refill_sufficient_def)
qed

section \<open>Creating a scheduling context\<close>

text \<open>
  Claim C7, as amended.  For every context, capacity, budget and period, after
  \<open>refill_new\<close> the context has head 0, count 1 and the single refill \<open>(now, budget)\<close>,
  and \<open>refill_sufficient 0\<close> holds exactly when \<open>budget \<ge> MIN_BUDGET\<close>.
  \<open>refill_ready\<close> holds exactly when \<open>now + wcet\<close> does not wrap around \<open>2 ^ 64\<close>,
  that is when \<open>now \<le> now + wcet\<close> in machine arithmetic.  Only this last part
  depends on the clock.
\<close>

theorem refill_new_spec:
  "scRefillHead (refill_new ns sc max_refills budget period) = 0 \<and>
   scRefillCount (refill_new ns sc max_refills budget period) = 1 \<and>
   scRefillMax (refill_new ns sc max_refills budget period) = max_refills \<and>
   scPeriod (refill_new ns sc max_refills budget period) = period \<and>
   scBudget (refill_new ns sc max_refills budget period) = budget \<and>
   REFILL_HEAD (refill_new ns sc max_refills budget period) =
     \<lparr>rTime = ksCurTime ns, rAmount = budget\<rparr> \<and>
   refill_list (refill_new ns sc max_refills budget period) =
     [\<lparr>rTime = ksCurTime ns, rAmount = budget\<rparr>] \<and>
   (refill_sufficient plat (refill_new ns sc max_refills budget period) 0
      \<longleftrightarrow> MIN_BUDGET plat \<le> budget) \<and>
   (refill_ready plat ns (refill_new ns sc max_refills budget period)
      \<longleftrightarrow> ksCurTime ns \<le> ksCurTime ns + kernelWcetTicks plat)"
  by (simp add: refill_new_def refill_list_def refill_ready_def refill_sufficient_def
      refill_capacity_def REFILL_HEAD_def REFILL_HEAD_update_def refill_index_update_def
      refill_index_def)

text \<open>The fresh context of the first scenario: four slots, budget 100, period 1000, at time 0.\<close>

theorem refill_new_spec_witness:
  "ksCurTime (at_time 0) \<le> ksCurTime (at_time 0) + kernelWcetTicks example_plat \<and>
   refill_list (refill_new (at_time 0) (single_refill_sc 0 0 7 7) 4 100 1000) =
     [\<lparr>rTime = 0, rAmount = 100\<rparr>] \<and>
   refill_ready example_plat (at_time 0) (refill_new (at_time 0) (single_refill_sc 0 0 7 7) 4 100 1000) \<and>
   refill_sufficient example_plat (refill_new (at_time 0) (single_refill_sc 0 0 7 7) 4 100 1000) 0"
  using refill_new_spec[of "at_time 0" "single_refill_sc 0 0 7 7" 4 100 1000 example_plat]
  by (simp add: at_time_def example_plat_def MIN_BUDGET_def)

text \<open>
  Without the proviso the head is not ready: at the last tick before the clock wraps,
  \<open>now + wcet\<close> is 4, and the refill that starts at \<open>now\<close> lies after it.
\<close>

theorem refill_new_not_ready_counterexample:
  "(1::word_t) \<le> 4 \<and> MIN_BUDGET example_plat < 100 \<and>
   \<not> refill_ready example_plat (at_time 18446744073709551615)
        (refill_new (at_time 18446744073709551615) (single_refill_sc 0 0 0 0) 4 100 1000)"
  by (simp add: MIN_BUDGET_def example_plat_def at_time_def refill_new_def single_refill_sc_def
      refill_ready_def REFILL_HEAD_def REFILL_HEAD_update_def refill_index_update_def refill_index_def)

section \<open>Charging a bandwidth overrun\<close>

text \<open>
  Claim C2.  When the head refill is not ready, or holds less than \<open>usage\<close>, then after
  \<open>refill_budget_check\<close> the queue consists of exactly one refill, at the old head
  index, whose time is the old head time plus period plus usage (in 64-bit arithmetic)
  and whose amount is the full budget.  Only the data-model fact that the head index
  lies inside the slot array is needed.
\<close>

theorem refill_budget_check_overrun:
  assumes "scRefillHead sc < scRefillMax sc"
      and "\<not> refill_ready plat ns sc \<or> rAmount (REFILL_HEAD sc) < usage"
  shows "scRefillCount (refill_budget_check plat ns sc usage) = 1 \<and>
         scRefillHead (refill_budget_check plat ns sc usage) = scRefillHead sc \<and>
         refill_list (refill_budget_check plat ns sc usage) =
           [\<lparr>rTime = rTime (REFILL_HEAD sc) + scPeriod sc + usage, rAmount = scBudget sc\<rparr>]"
proof -
  let ?used = "\<lparr>rTime = rTime (REFILL_HEAD sc) + scPeriod sc + usage, rAmount = scBudget sc\<rparr>"
  let ?sc0 = "sc\<lparr>scRefillCount := 0\<rparr>"
  from assms(2) have eq: "refill_budget_check plat ns sc usage = refill_add_tail ?sc0 ?used"
    by (auto simp: refill_budget_check_def Let_def schedule_used_def refill_empty_def)
  have ti: "refill_tail_index (sc\<lparr>scRefillCount := 1\<rparr>) = scRefillHead sc"
  proof -
    from assms(1) have "\<not> scRefillMax sc \<le> scRefillHead sc" by simp
    then show ?thesis by (simp add: refill_tail_index_def Let_def)
  qed
  show ?thesis
    unfolding eq
    by (simp add: refill_add_tail_def Let_def REFILL_TAIL_update_def ti refill_list_single
        refill_index_refill_index_update)
qed

text \<open>The overrun scenario: one refill \<open>(100, 40)\<close>, period 500, charged 60 at time 200.\<close>

theorem refill_budget_check_overrun_witness:
  "scRefillHead (single_refill_sc 500 40 100 40) < scRefillMax (single_refill_sc 500 40 100 40) \<and>
   rAmount (REFILL_HEAD (single_refill_sc 500 40 100 40)) < 60 \<and>
   refill_list (refill_budget_check example_plat (at_time 200) (single_refill_sc 500 40 100 40) 60) =
     [\<lparr>rTime = 660, rAmount = 40\<rparr>]"
  using refill_budget_check_overrun[of "single_refill_sc 500 40 100 40" example_plat "at_time 200" 60]
  by (simp add: single_refill_sc_def REFILL_HEAD_def refill_index_def)

section \<open>Reconfiguring a scheduling context\<close>

text \<open>
  Claim C3, as amended.  For every context and every new period, budget and capacity
  with \<open>new_budget \<le> new_period\<close> and capacity at least 1, after \<open>refill_update\<close> the
  refill amounts sum to the new budget and the window constraint holds with the new
  period.  (Nothing is needed of the old queue: only its head refill survives.)
\<close>

theorem refill_update_sum_window:
  assumes "new_budget \<le> new_period" and "1 \<le> new_max_refills"
  shows "refill_sum (refill_update plat ns sc new_period new_budget new_max_refills) = new_budget \<and>
         refill_all_within_period (refill_update plat ns sc new_period new_budget new_max_refills)"
proof -
  let ?sc1 = "refill_index_update sc 0 (\<lambda>_. REFILL_HEAD sc)
        \<lparr>scRefillHead := 0, scRefillCount := 1, scRefillMax := new_max_refills,
         scPeriod := new_period, scBudget := new_budget\<rparr>"
  let ?sc2 = "if refill_ready plat ns ?sc1
                then REFILL_HEAD_update ?sc1 (\<lambda>r. r\<lparr>rTime := ksCurTime ns\<rparr>) else ?sc1"
  have M: "new_max_refills \<noteq> 0" using assms(2) by auto
  have f: "scRefillHead ?sc2 = 0" "scRefillCount ?sc2 = 1" "scRefillMax ?sc2 \<noteq> 0"
    "new_budget \<le> scPeriod ?sc2" "scPeriod ?sc2 = new_period"
    using M assms(1) by simp_all
  have eq: "refill_update plat ns sc new_period new_budget new_max_refills =
      (if new_budget \<le> rAmount (REFILL_HEAD ?sc2)
       then REFILL_HEAD_update ?sc2 (\<lambda>r. r\<lparr>rAmount := new_budget\<rparr>)
       else schedule_used plat ?sc2
              \<lparr>rTime = rTime (REFILL_HEAD ?sc2) + scPeriod ?sc2 - (new_budget - rAmount (REFILL_HEAD ?sc2)),
               rAmount = new_budget - rAmount (REFILL_HEAD ?sc2)\<rparr>)"
    unfolding f(5) by (simp add: refill_update_def Let_def)
  show ?thesis
    unfolding eq by (rule refill_update_tail_step[OF f(1-4)])
qed

text \<open>
  Raising the budget of the fresh context from 100 to 150 at time 20: the missing 50
  ticks are scheduled to end one period after the head starts.
\<close>

theorem refill_update_sum_window_witness:
  "(150::ticks_t) \<le> 1000 \<and> (1::word_t) \<le> 2 \<and>
   refill_list (refill_update example_plat (at_time 20) (single_refill_sc 1000 100 0 100) 1000 150 2)
     = [\<lparr>rTime = 20, rAmount = 100\<rparr>, \<lparr>rTime = 970, rAmount = 50\<rparr>] \<and>
   refill_sum (refill_update example_plat (at_time 20) (single_refill_sc 1000 100 0 100) 1000 150 2) = 150 \<and>
   refill_all_within_period
     (refill_update example_plat (at_time 20) (single_refill_sc 1000 100 0 100) 1000 150 2)"
proof -
  have "refill_list (refill_update example_plat (at_time 20) (single_refill_sc 1000 100 0 100) 1000 150 2)
     = [\<lparr>rTime = 20, rAmount = 100\<rparr>, \<lparr>rTime = 970, rAmount = 50\<rparr>]"
    by code_simp
  then show ?thesis
    using refill_update_sum_window[of 150 1000 2 example_plat "at_time 20" "single_refill_sc 1000 100 0 100"]
    by simp
qed

text \<open>
  Without \<open>new_budget \<le> new_period\<close> the window constraint fails: the head is trimmed
  to the new budget 100, which does not fit the new period 10.
\<close>

theorem refill_update_window_counterexample:
  "sc_active (single_refill_sc 1000 100 0 100) \<and>
   universal_invariants example_plat (single_refill_sc 1000 100 0 100) \<and>
   MIN_SC_BUDGET example_plat \<le> 100 \<and> (1::word_t) \<le> 4 \<and>
   \<not> refill_all_within_period
         (refill_update example_plat (at_time 0) (single_refill_sc 1000 100 0 100) 10 100 4)"
  by code_simp

section \<open>Scheduling a used refill: the split case\<close>

text \<open>
  Claim C6, as amended.  Every sum and comparison below is the one the code computes,
  in 64-bit unsigned arithmetic.  Let the queue be non-empty and not full, with head and
  count within a capacity of at most \<open>2 ^ 63\<close>, and let \<open>new\<close> start no earlier than the
  tail ends, \<open>new.time \<ge> tail.time + tail.amount\<close>, with \<open>new.amount < MIN_BUDGET\<close> and
  \<open>tail.amount + new.amount \<ge> 2 * MIN_BUDGET\<close>.  Provided that neither
  \<open>2 * MIN_BUDGET\<close> nor \<open>tail.time + tail.amount\<close> wraps around \<open>2 ^ 64\<close> (as natural
  numbers both stay below \<open>2 ^ 64\<close>), \<open>schedule_used\<close> moves
  \<open>remainder = MIN_BUDGET - new.amount\<close> ticks from the tail to \<open>new\<close> and pushes \<open>new\<close>
  as the tail: \<open>new.time\<close> decreases by the remainder, \<open>new.amount\<close> becomes
  \<open>MIN_BUDGET\<close>, the old tail shrinks by the remainder; both refills have at least
  \<open>MIN_BUDGET\<close>, the old tail still ends (without wrapping) no later than the new one
  starts, and the sum of the queue grows by exactly the amount of \<open>new\<close> (the total of
  queue and \<open>new\<close> is unchanged).
\<close>

theorem schedule_used_split_spec:
  assumes wf: "sc_wf sc" and le: "scRefillCount sc \<le> scRefillMax sc" and ne: "scRefillCount sc \<noteq> 0"
      and ord: "rTime (REFILL_TAIL sc) + rAmount (REFILL_TAIL sc) \<le> rTime new"
      and small: "rAmount new < MIN_BUDGET plat"
      and nfull: "\<not> refill_full sc"
      and spare: "2 * MIN_BUDGET plat \<le> rAmount (REFILL_TAIL sc) + rAmount new"
      and m2: "2 * unat (MIN_BUDGET plat) < 2 ^ 64"
      and tend: "unat (rTime (REFILL_TAIL sc)) + unat (rAmount (REFILL_TAIL sc)) < 2 ^ 64"
  shows "refill_list (schedule_used plat sc new) =
           butlast (refill_list sc) @
             [(REFILL_TAIL sc)\<lparr>rAmount := rAmount (REFILL_TAIL sc) - (MIN_BUDGET plat - rAmount new)\<rparr>,
              \<lparr>rTime = rTime new - (MIN_BUDGET plat - rAmount new), rAmount = MIN_BUDGET plat\<rparr>] \<and>
         scRefillCount (schedule_used plat sc new) = scRefillCount sc + 1 \<and>
         REFILL_TAIL (schedule_used plat sc new) =
           \<lparr>rTime = rTime new - (MIN_BUDGET plat - rAmount new), rAmount = MIN_BUDGET plat\<rparr> \<and>
         rAmount new + (MIN_BUDGET plat - rAmount new) = MIN_BUDGET plat \<and>
         MIN_BUDGET plat \<le> rAmount (REFILL_TAIL sc) - (MIN_BUDGET plat - rAmount new) \<and>
         rTime (REFILL_TAIL sc) + (rAmount (REFILL_TAIL sc) - (MIN_BUDGET plat - rAmount new))
           \<le> rTime new - (MIN_BUDGET plat - rAmount new) \<and>
         unat (rTime (REFILL_TAIL sc)) + unat (rAmount (REFILL_TAIL sc) - (MIN_BUDGET plat - rAmount new))
           < 2 ^ 64 \<and>
         refill_sum (schedule_used plat sc new) = refill_sum sc + rAmount new"
proof -
  have rw: "ring_wf sc" using wf le by (rule ring_wfI)
  have sp: "schedule_used_splits plat sc new"
    using small nfull spare by (simp add: schedule_used_splits_def)
  have lt: "scRefillCount sc < scRefillMax sc"
    using nfull le by (auto simp: refill_full_def)
  then have le': "scRefillCount sc + 1 \<le> scRefillMax sc"
    using unat_plus_1[OF lt] by (simp add: word_le_nat_alt word_less_nat_alt)
  have rw': "ring_wf (sc\<lparr>scRefillCount := scRefillCount sc + 1\<rparr>)"
    using wf le' by (intro ring_wfI) (simp_all add: sc_wf_def)
  have tl: "REFILL_TAIL sc = last (refill_list sc)" using rw ne by (rule REFILL_TAIL_last)
  have nn: "refill_list sc \<noteq> []" using ne by simp
  have l: "refill_list (schedule_used plat sc new) =
           butlast (refill_list sc) @
             [(REFILL_TAIL sc)\<lparr>rAmount := rAmount (REFILL_TAIL sc) - (MIN_BUDGET plat - rAmount new)\<rparr>,
              \<lparr>rTime = rTime new - (MIN_BUDGET plat - rAmount new), rAmount = MIN_BUDGET plat\<rparr>]"
    using sp by (simp add: schedule_used_refill_list[OF rw ne rw'] schedule_used_list_def
        schedule_used_splits_def tl)
  have c: "scRefillCount (schedule_used plat sc new) = scRefillCount sc + 1"
    using sp ne by (simp add: schedule_used_count)
  have "ring_wf (schedule_used plat sc new)" "scRefillCount (schedule_used plat sc new) \<noteq> 0"
    using ring_wf_schedule_used[OF rw ne rw', of plat new] by simp_all
  then have t: "REFILL_TAIL (schedule_used plat sc new) =
           \<lparr>rTime = rTime new - (MIN_BUDGET plat - rAmount new), rAmount = MIN_BUDGET plat\<rparr>"
    by (simp add: REFILL_TAIL_last l)
  have s: "refill_sum (schedule_used plat sc new) = refill_sum sc + rAmount new"
    using sum_list_butlast_last[OF nn, of rAmount]
    by (simp add: refill_sum_list l tl)
  note ar = split_arith[OF small spare m2 tend ord]
  show ?thesis
    using l c t s ar by simp
qed

text \<open>
  The split scenario with \<open>MIN_BUDGET = 30\<close>: tail \<open>(95, 35)\<close>, new refill \<open>(600, 25)\<close>.
\<close>

theorem schedule_used_split_spec_witness:
  "sc_wf (single_refill_sc 600 60 95 35) \<and>
   scRefillCount (single_refill_sc 600 60 95 35) \<le> scRefillMax (single_refill_sc 600 60 95 35) \<and>
   scRefillCount (single_refill_sc 600 60 95 35) \<noteq> 0 \<and>
   rTime (REFILL_TAIL (single_refill_sc 600 60 95 35)) + rAmount (REFILL_TAIL (single_refill_sc 600 60 95 35))
     \<le> rTime \<lparr>rTime = 600, rAmount = 25\<rparr> \<and>
   rAmount \<lparr>rTime = 600, rAmount = 25\<rparr> < MIN_BUDGET example_plat_30 \<and>
   \<not> refill_full (single_refill_sc 600 60 95 35) \<and>
   2 * MIN_BUDGET example_plat_30
     \<le> rAmount (REFILL_TAIL (single_refill_sc 600 60 95 35)) + rAmount \<lparr>rTime = 600, rAmount = 25\<rparr> \<and>
   refill_list (schedule_used example_plat_30 (single_refill_sc 600 60 95 35) \<lparr>rTime = 600, rAmount = 25\<rparr>)
     = [\<lparr>rTime = 95, rAmount = 30\<rparr>, \<lparr>rTime = 595, rAmount = 30\<rparr>] \<and>
   refill_sum (schedule_used example_plat_30 (single_refill_sc 600 60 95 35) \<lparr>rTime = 600, rAmount = 25\<rparr>)
     = 60"
proof -
  let ?sc = "single_refill_sc 600 60 95 35" and ?new = "\<lparr>rTime = 600, rAmount = 25\<rparr> :: refill_t"
  have t: "REFILL_TAIL ?sc = \<lparr>rTime = 95, rAmount = 35\<rparr>"
    by (simp add: REFILL_TAIL_def refill_tail_index_def single_refill_sc_def refill_index_def)
  have m: "MIN_BUDGET example_plat_30 = 30" by (simp add: MIN_BUDGET_def example_plat_30_def)
  have h: "sc_wf ?sc" "scRefillCount ?sc \<le> scRefillMax ?sc" "scRefillCount ?sc \<noteq> 0"
    "rTime (REFILL_TAIL ?sc) + rAmount (REFILL_TAIL ?sc) \<le> rTime ?new"
    "rAmount ?new < MIN_BUDGET example_plat_30" "\<not> refill_full ?sc"
    "2 * MIN_BUDGET example_plat_30 \<le> rAmount (REFILL_TAIL ?sc) + rAmount ?new"
    "2 * unat (MIN_BUDGET example_plat_30) < 2 ^ 64"
    "unat (rTime (REFILL_TAIL ?sc)) + unat (rAmount (REFILL_TAIL ?sc)) < 2 ^ 64"
    by (simp_all add: t m) (simp_all add: sc_wf_def single_refill_sc_def refill_full_def)
  have s: "refill_sum ?sc = 35" "butlast (refill_list ?sc) = []"
    by (simp_all add: refill_sum_list refill_list_single single_refill_sc_def refill_index_def)
  show ?thesis
    using schedule_used_split_spec[OF h] h(1-7) by (simp add: t m s)
qed

text \<open>
  The claim fails when the tail ends after the clock has wrapped.  With
  \<open>MIN_BUDGET = 8\<close>, the tail \<open>(2 ^ 64 - 10, 12)\<close> ends at 2 in 64-bit arithmetic, so a
  new refill \<open>(3, 5)\<close> starts after it; \<open>12 + 5 \<ge> 16\<close> and the split is taken.  It
  leaves the tail \<open>(2 ^ 64 - 10, 9)\<close>, which ends at \<open>2 ^ 64 - 1\<close>, followed by the new
  refill \<open>(0, 8)\<close>: the two are not ordered-disjoint.
\<close>

theorem schedule_used_split_counterexample:
  "scRefillCount late_tail_sc \<noteq> 0 \<and>
   universal_invariants example_plat_8 late_tail_sc \<and>
   REFILL_TAIL late_tail_sc = \<lparr>rTime = 18446744073709551606, rAmount = 12\<rparr> \<and>
   MIN_BUDGET example_plat_8 = 8 \<and>
   rTime (REFILL_TAIL late_tail_sc) + rAmount (REFILL_TAIL late_tail_sc)
     \<le> rTime \<lparr>rTime = 3, rAmount = 5\<rparr> \<and>
   rAmount \<lparr>rTime = 3, rAmount = 5\<rparr> < MIN_BUDGET example_plat_8 \<and>
   \<not> refill_full late_tail_sc \<and>
   2 * MIN_BUDGET example_plat_8
     \<le> rAmount (REFILL_TAIL late_tail_sc) + rAmount \<lparr>rTime = 3, rAmount = 5\<rparr> \<and>
   refill_list (schedule_used example_plat_8 late_tail_sc \<lparr>rTime = 3, rAmount = 5\<rparr>)
     = [\<lparr>rTime = 18446744073709551606, rAmount = 9\<rparr>, \<lparr>rTime = 0, rAmount = 8\<rparr>] \<and>
   \<not> refill_ordered_disjoint
       (schedule_used example_plat_8 late_tail_sc \<lparr>rTime = 3, rAmount = 5\<rparr>)"
proof -
  have a1: "scRefillCount late_tail_sc \<noteq> 0" "\<not> refill_full late_tail_sc"
    by (simp_all add: late_tail_sc_def single_refill_sc_def refill_full_def)
  have a2: "universal_invariants example_plat_8 late_tail_sc"
    by code_simp
  have a3: "REFILL_TAIL late_tail_sc = \<lparr>rTime = 18446744073709551606, rAmount = 12\<rparr>"
    by code_simp
  have a4: "MIN_BUDGET example_plat_8 = 8"
    by (simp add: MIN_BUDGET_def example_plat_8_def)
  have a5: "rTime (REFILL_TAIL late_tail_sc) + rAmount (REFILL_TAIL late_tail_sc)
      \<le> rTime \<lparr>rTime = 3, rAmount = 5\<rparr> \<and>
    rAmount \<lparr>rTime = 3, rAmount = 5\<rparr> < MIN_BUDGET example_plat_8 \<and>
    2 * MIN_BUDGET example_plat_8
      \<le> rAmount (REFILL_TAIL late_tail_sc) + rAmount \<lparr>rTime = 3, rAmount = 5\<rparr>"
    by (simp add: a3 a4)
  have a6: "refill_list (schedule_used example_plat_8 late_tail_sc \<lparr>rTime = 3, rAmount = 5\<rparr>)
      = [\<lparr>rTime = 18446744073709551606, rAmount = 9\<rparr>, \<lparr>rTime = 0, rAmount = 8\<rparr>]"
    by code_simp
  have a7: "\<not> refill_ordered_disjoint
       (schedule_used example_plat_8 late_tail_sc \<lparr>rTime = 3, rAmount = 5\<rparr>)"
    by code_simp
  from a1 a2 a3 a4 a5 a6 a7 show ?thesis by blast
qed

text \<open>
  The proviso on \<open>2 * MIN_BUDGET\<close> is needed as well: with \<open>MIN_BUDGET = 2 ^ 63\<close> the
  product wraps to 0, the split is taken for a tail of \<open>2 ^ 63\<close> ticks and a new refill
  of 5 ticks, and the tail is left with 5 ticks.
\<close>

lemma schedule_used_split_min_budget_wraps:
  "scRefillCount huge_tail_sc \<noteq> 0 \<and>
   universal_invariants example_plat_huge huge_tail_sc \<and>
   rTime (REFILL_TAIL huge_tail_sc) + rAmount (REFILL_TAIL huge_tail_sc)
     \<le> rTime \<lparr>rTime = 9223372036854775808, rAmount = 5\<rparr> \<and>
   rAmount \<lparr>rTime = 9223372036854775808, rAmount = 5\<rparr> < MIN_BUDGET example_plat_huge \<and>
   \<not> refill_full huge_tail_sc \<and>
   2 * MIN_BUDGET example_plat_huge
     \<le> rAmount (REFILL_TAIL huge_tail_sc) + rAmount \<lparr>rTime = 9223372036854775808, rAmount = 5\<rparr> \<and>
   refill_list (schedule_used example_plat_huge huge_tail_sc
       \<lparr>rTime = 9223372036854775808, rAmount = 5\<rparr>)
     = [\<lparr>rTime = 0, rAmount = 5\<rparr>, \<lparr>rTime = 5, rAmount = 9223372036854775808\<rparr>] \<and>
   \<not> refill_at_least_min_budget example_plat_huge
       (schedule_used example_plat_huge huge_tail_sc \<lparr>rTime = 9223372036854775808, rAmount = 5\<rparr>)"
proof -
  have a1: "scRefillCount huge_tail_sc \<noteq> 0" "\<not> refill_full huge_tail_sc"
    by (simp_all add: huge_tail_sc_def single_refill_sc_def refill_full_def)
  have a2: "universal_invariants example_plat_huge huge_tail_sc"
    by code_simp
  have a3: "rTime (REFILL_TAIL huge_tail_sc) + rAmount (REFILL_TAIL huge_tail_sc)
      \<le> rTime \<lparr>rTime = 9223372036854775808, rAmount = 5\<rparr> \<and>
    rAmount \<lparr>rTime = 9223372036854775808, rAmount = 5\<rparr> < MIN_BUDGET example_plat_huge \<and>
    2 * MIN_BUDGET example_plat_huge
      \<le> rAmount (REFILL_TAIL huge_tail_sc) + rAmount \<lparr>rTime = 9223372036854775808, rAmount = 5\<rparr>"
    by code_simp
  have a4: "refill_list (schedule_used example_plat_huge huge_tail_sc
        \<lparr>rTime = 9223372036854775808, rAmount = 5\<rparr>)
      = [\<lparr>rTime = 0, rAmount = 5\<rparr>, \<lparr>rTime = 5, rAmount = 9223372036854775808\<rparr>]"
    by code_simp
  have a5: "\<not> refill_at_least_min_budget example_plat_huge
        (schedule_used example_plat_huge huge_tail_sc \<lparr>rTime = 9223372036854775808, rAmount = 5\<rparr>)"
    by code_simp
  from a1 a2 a3 a4 a5 show ?thesis by blast
qed

section \<open>Charging nothing\<close>

text \<open>
  Claim C5, as amended.  \<open>refill_budget_check 0\<close> is not a no-op in general.  For a
  non-empty queue whose head is ready and holds at least \<open>MIN_BUDGET > 0\<close>, charging 0
  ticks leaves the head index alone and equals \<open>schedule_used\<close> of the empty refill
  \<open>(head.time + period, 0)\<close>: when the queue is not full and the tail holds at least
  \<open>2 * MIN_BUDGET\<close>, a refill of \<open>MIN_BUDGET\<close> ticks is split off the tail and placed so
  that it ends at \<open>head.time + period\<close>; otherwise the tail is moved so that it ends at
  \<open>head.time + period\<close>.  The context is unchanged exactly when no split happens and
  the tail already ends at \<open>head.time + period\<close>.
\<close>

theorem refill_budget_check_zero:
  assumes wf: "sc_wf sc" and le: "scRefillCount sc \<le> scRefillMax sc" and ne: "scRefillCount sc \<noteq> 0"
      and ready: "refill_ready plat ns sc"
      and pos: "0 < MIN_BUDGET plat" and min: "MIN_BUDGET plat \<le> rAmount (REFILL_HEAD sc)"
  shows "refill_budget_check plat ns sc 0 =
           schedule_used plat sc \<lparr>rTime = rTime (REFILL_HEAD sc) + scPeriod sc, rAmount = 0\<rparr> \<and>
         scRefillHead (refill_budget_check plat ns sc 0) = scRefillHead sc \<and>
         refill_list (refill_budget_check plat ns sc 0) =
           (if \<not> refill_full sc \<and> 2 * MIN_BUDGET plat \<le> rAmount (REFILL_TAIL sc)
            then butlast (refill_list sc) @
                   [(REFILL_TAIL sc)\<lparr>rAmount := rAmount (REFILL_TAIL sc) - MIN_BUDGET plat\<rparr>,
                    \<lparr>rTime = rTime (REFILL_HEAD sc) + scPeriod sc - MIN_BUDGET plat,
                     rAmount = MIN_BUDGET plat\<rparr>]
            else butlast (refill_list sc) @
                   [\<lparr>rTime = rTime (REFILL_HEAD sc) + scPeriod sc - rAmount (REFILL_TAIL sc),
                     rAmount = rAmount (REFILL_TAIL sc)\<rparr>]) \<and>
         (refill_budget_check plat ns sc 0 = sc \<longleftrightarrow>
            (refill_full sc \<or> rAmount (REFILL_TAIL sc) < 2 * MIN_BUDGET plat) \<and>
            rTime (REFILL_TAIL sc) + rAmount (REFILL_TAIL sc) = rTime (REFILL_HEAD sc) + scPeriod sc)"
proof -
  let ?h = "REFILL_HEAD sc" and ?t = "REFILL_TAIL sc"
  let ?used = "\<lparr>rTime = rTime ?h + scPeriod sc, rAmount = 0\<rparr> :: refill_t"
  have a0: "rAmount ?h \<noteq> 0" using pos min by auto
  have hid: "REFILL_HEAD_update (REFILL_HEAD_update sc (\<lambda>r. r\<lparr>rAmount := rAmount ?h\<rparr>))
               (\<lambda>r. r\<lparr>rTime := rTime r + 0\<rparr>) = sc"
    by (simp add: REFILL_HEAD_update_def refill_index_update_twice refill_index_update_id_iff
        REFILL_HEAD_def refill_index_def)
  have eq: "refill_budget_check plat ns sc 0 = schedule_used plat sc ?used"
    using ready a0 min hid by (simp add: refill_budget_check_def Let_def)
  have rw: "ring_wf sc" using wf le by (rule ring_wfI)
  have nem: "\<not> refill_empty sc" using ne by (simp add: refill_empty_def)
  have rw': "ring_wf (sc\<lparr>scRefillCount := scRefillCount sc + 1\<rparr>)" if "\<not> refill_full sc"
  proof -
    from that le have lt: "scRefillCount sc < scRefillMax sc" by (auto simp: refill_full_def)
    then have "scRefillCount sc + 1 \<le> scRefillMax sc"
      using unat_plus_1[OF lt] by (simp add: word_le_nat_alt word_less_nat_alt)
    with wf show ?thesis by (intro ring_wfI) (simp_all add: sc_wf_def)
  qed
  have tl: "?t = last (refill_list sc)" using rw ne by (rule REFILL_TAIL_last)
  have sp: "schedule_used_splits plat sc ?used \<longleftrightarrow>
              \<not> refill_full sc \<and> 2 * MIN_BUDGET plat \<le> rAmount ?t"
    using pos by (simp add: schedule_used_splits_def)
  have l: "refill_list (schedule_used plat sc ?used) =
           (if \<not> refill_full sc \<and> 2 * MIN_BUDGET plat \<le> rAmount ?t
            then butlast (refill_list sc) @
                   [?t\<lparr>rAmount := rAmount ?t - MIN_BUDGET plat\<rparr>,
                    \<lparr>rTime = rTime ?h + scPeriod sc - MIN_BUDGET plat, rAmount = MIN_BUDGET plat\<rparr>]
            else butlast (refill_list sc) @
                   [\<lparr>rTime = rTime ?h + scPeriod sc - rAmount ?t, rAmount = rAmount ?t\<rparr>])"
    using pos by (simp add: schedule_used_refill_list[OF rw ne rw'] schedule_used_list_def tl)
  have noop: "schedule_used plat sc ?used = sc \<longleftrightarrow>
            (refill_full sc \<or> rAmount ?t < 2 * MIN_BUDGET plat) \<and>
            rTime ?t + rAmount ?t = rTime ?h + scPeriod sc"
  proof (cases "schedule_used_splits plat sc ?used")
    case True
    then have "scRefillCount (schedule_used plat sc ?used) = scRefillCount sc + 1"
      using ne by (simp add: schedule_used_count)
    then have "schedule_used plat sc ?used \<noteq> sc" by auto
    with True show ?thesis by (auto simp: sp)
  next
    case False
    have m: "rAmount ?used < MIN_BUDGET plat \<or> refill_full sc" using pos by simp
    have "schedule_used plat sc ?used = sc \<longleftrightarrow> rTime ?h + scPeriod sc - rAmount ?t = rTime ?t"
      by (simp add: schedule_used_merge[OF nem False m] REFILL_TAIL_update_def
          refill_index_update_twice refill_index_update_id_iff REFILL_TAIL_def refill_index_def
          refill_t.equality)
         (metis refill_t.select_convs(1) refill_t.surjective refill_t.update_convs(1))
    then show ?thesis using False by (auto simp: sp word_shift_eq)
  qed
  show ?thesis using eq l noop by simp
qed

text \<open>On the fresh context \<open>[(0, 100)]\<close> with period 1000, ten ticks are split off.\<close>

theorem refill_budget_check_zero_witness:
  "sc_wf (single_refill_sc 1000 100 0 100) \<and>
   scRefillCount (single_refill_sc 1000 100 0 100) \<le> scRefillMax (single_refill_sc 1000 100 0 100) \<and>
   scRefillCount (single_refill_sc 1000 100 0 100) \<noteq> 0 \<and>
   refill_ready example_plat (at_time 20) (single_refill_sc 1000 100 0 100) \<and>
   0 < MIN_BUDGET example_plat \<and>
   MIN_BUDGET example_plat \<le> rAmount (REFILL_HEAD (single_refill_sc 1000 100 0 100)) \<and>
   refill_list (refill_budget_check example_plat (at_time 20) (single_refill_sc 1000 100 0 100) 0)
     = [\<lparr>rTime = 0, rAmount = 90\<rparr>, \<lparr>rTime = 990, rAmount = 10\<rparr>] \<and>
   refill_budget_check example_plat (at_time 20) (single_refill_sc 1000 100 0 100) 0
     \<noteq> single_refill_sc 1000 100 0 100"
proof -
  let ?sc = "single_refill_sc 1000 100 0 100"
  have hd: "REFILL_HEAD ?sc = \<lparr>rTime = 0, rAmount = 100\<rparr>" by code_simp
  have tl: "REFILL_TAIL ?sc = \<lparr>rTime = 0, rAmount = 100\<rparr>" by code_simp
  have m: "MIN_BUDGET example_plat = 10" by code_simp
  have l: "refill_list ?sc = [\<lparr>rTime = 0, rAmount = 100\<rparr>]" by code_simp
  have h: "sc_wf ?sc" "scRefillCount ?sc \<le> scRefillMax ?sc" "scRefillCount ?sc \<noteq> 0"
    "refill_ready example_plat (at_time 20) ?sc" "0 < MIN_BUDGET example_plat"
    "MIN_BUDGET example_plat \<le> rAmount (REFILL_HEAD ?sc)"
    by (simp_all add: hd m)
       (simp_all add: sc_wf_def single_refill_sc_def refill_ready_def REFILL_HEAD_def
          refill_index_def at_time_def example_plat_def)
  have nf: "\<not> refill_full ?sc" "scPeriod ?sc = 1000"
    by (simp_all add: refill_full_def single_refill_sc_def)
  note z = refill_budget_check_zero[OF h]
  have r1: "refill_list (refill_budget_check example_plat (at_time 20) ?sc 0)
     = [\<lparr>rTime = 0, rAmount = 90\<rparr>, \<lparr>rTime = 990, rAmount = 10\<rparr>]"
    using z[THEN conjunct2, THEN conjunct2, THEN conjunct1] by (simp add: hd tl m l nf)
  have r2: "refill_budget_check example_plat (at_time 20) ?sc 0 \<noteq> ?sc"
    using z[THEN conjunct2, THEN conjunct2, THEN conjunct2] by (simp add: hd tl m nf)
  show ?thesis using h r1 r2 by simp
qed

text \<open>
  The same run refutes the claim as stated: the count goes from 1 to 2 and the head
  refill from \<open>(0, 100)\<close> to \<open>(0, 90)\<close>.
\<close>

theorem refill_budget_check_zero_counterexample:
  "sc_active (single_refill_sc 1000 100 0 100) \<and>
   \<not> isRoundRobin example_plat (single_refill_sc 1000 100 0 100) \<and>
   universal_invariants example_plat (single_refill_sc 1000 100 0 100) \<and>
   refill_ready example_plat (at_time 20) (single_refill_sc 1000 100 0 100) \<and>
   scRefillCount (single_refill_sc 1000 100 0 100) = 1 \<and>
   scRefillCount (refill_budget_check example_plat (at_time 20) (single_refill_sc 1000 100 0 100) 0) = 2 \<and>
   REFILL_HEAD (single_refill_sc 1000 100 0 100) = \<lparr>rTime = 0, rAmount = 100\<rparr> \<and>
   REFILL_HEAD (refill_budget_check example_plat (at_time 20) (single_refill_sc 1000 100 0 100) 0)
     = \<lparr>rTime = 0, rAmount = 90\<rparr> \<and>
   refill_list (refill_budget_check example_plat (at_time 20) (single_refill_sc 1000 100 0 100) 0)
     = [\<lparr>rTime = 0, rAmount = 90\<rparr>, \<lparr>rTime = 990, rAmount = 10\<rparr>]"
  by code_simp

section \<open>Unblocking\<close>

lemma refill_unblock_check_ready_aux:
  assumes wf: "sc_wf sc" and le: "scRefillCount sc \<le> scRefillMax sc" and ne: "scRefillCount sc \<noteq> 0"
      and nrr: "\<not> isRoundRobin plat sc"
      and ready: "refill_ready plat ns sc"
      and min: "refill_at_least_min_budget plat sc"
      and total: "amounts_total (refill_list sc) < 2 ^ 64"
  shows "rTime (REFILL_HEAD (snd (refill_unblock_check plat ns sc)))
           = ksCurTime ns + kernelWcetTicks plat \<and>
         ksReprogram (fst (refill_unblock_check plat ns sc)) \<and>
         refill_ready plat ns (snd (refill_unblock_check plat ns sc)) \<and>
         refill_sufficient plat (snd (refill_unblock_check plat ns sc)) 0"
proof -
  let ?nw = "ksCurTime ns + kernelWcetTicks plat"
  let ?sc1 = "REFILL_HEAD_update sc (\<lambda>r. r\<lparr>rTime := ?nw\<rparr>)"
  let ?res = "fst (refill_unblock_check_loop plat ns ?sc1 0)"
  have res: "snd (refill_unblock_check plat ns sc) = ?res"
    using nrr ready by (simp add: refill_unblock_check_def Let_def)
  have rw: "ring_wf sc" using wf le by (rule ring_wfI)
  obtain h rs where xs: "refill_list sc = h # rs"
    using ne by (cases "refill_list sc") simp_all
  have l1: "refill_list ?sc1 = h\<lparr>rTime := ?nw\<rparr> # rs"
    by (simp add: refill_list_head_update[OF rw ne] xs)
  have rw1: "ring_wf ?sc1" using rw by simp
  have lr: "refill_list ?res = unblock_merge_list ?nw (h\<lparr>rTime := ?nw\<rparr> # rs)"
    using unblock_loop_refill_list[OF rw1, of plat ns 0] by (simp add: l1)
  have a: "\<forall>r\<in>set (h\<lparr>rTime := ?nw\<rparr> # rs). MIN_BUDGET plat \<le> rAmount r"
    using min by (simp add: refill_at_least_min_budget_list xs list_all_iff)
  have t: "amounts_total (h\<lparr>rTime := ?nw\<rparr> # rs) < 2 ^ 64" using total by (simp add: xs)
  have "unblock_merge_list ?nw (h\<lparr>rTime := ?nw\<rparr> # rs) \<noteq> [] \<and>
        rTime (hd (unblock_merge_list ?nw (h\<lparr>rTime := ?nw\<rparr> # rs))) = ?nw \<and>
        MIN_BUDGET plat \<le> rAmount (hd (unblock_merge_list ?nw (h\<lparr>rTime := ?nw\<rparr> # rs)))"
    using a t by (intro unblock_merge_list_head) simp_all
  then have "refill_list ?res \<noteq> []" "rTime (hd (refill_list ?res)) = ?nw"
    "MIN_BUDGET plat \<le> rAmount (hd (refill_list ?res))"
    by (simp_all add: lr)
  moreover from this(1) have "scRefillCount ?res \<noteq> 0" by simp
  then have "REFILL_HEAD ?res = hd (refill_list ?res)" by (rule REFILL_HEAD_hd)
  moreover have "ksReprogram (fst (refill_unblock_check plat ns sc))"
    using nrr ready by (simp add: refill_unblock_check_def Let_def)
  ultimately show ?thesis
    unfolding res by (simp add: refill_ready_def refill_sufficient_def refill_capacity_def)
qed

lemma refill_unblock_check_not_ready:
  "\<not> refill_ready plat ns sc \<Longrightarrow> refill_unblock_check plat ns sc = (ns, sc)"
  by (simp add: refill_unblock_check_def)

text \<open>
  Claim C4, as amended.  For a non-empty, non-round-robin context (head index and count
  within a capacity of at most \<open>2 ^ 63\<close> slots) whose head is ready on entry, whose
  refills all hold at least \<open>MIN_BUDGET\<close> and whose amounts add up without wrapping
  around \<open>2 ^ 64\<close>, \<open>refill_unblock_check\<close> sets \<open>ksReprogram\<close> and moves the head to
  \<open>now + wcet\<close>, and afterwards the head is ready and \<open>refill_sufficient 0\<close> holds.
  For every context whose head is not ready on entry, \<open>refill_unblock_check\<close> leaves the
  context and the node state unchanged, so the head is still not ready.
\<close>

theorem refill_unblock_check_ready_sufficient:
  "(sc_wf sc \<and> scRefillCount sc \<le> scRefillMax sc \<and> scRefillCount sc \<noteq> 0 \<and>
    \<not> isRoundRobin plat sc \<and> refill_ready plat ns sc \<and>
    refill_at_least_min_budget plat sc \<and> amounts_total (refill_list sc) < 2 ^ 64 \<longrightarrow>
      rTime (REFILL_HEAD (snd (refill_unblock_check plat ns sc)))
        = ksCurTime ns + kernelWcetTicks plat \<and>
      ksReprogram (fst (refill_unblock_check plat ns sc)) \<and>
      refill_ready plat ns (snd (refill_unblock_check plat ns sc)) \<and>
      refill_sufficient plat (snd (refill_unblock_check plat ns sc)) 0) \<and>
   (\<not> refill_ready plat ns sc \<longrightarrow>
      refill_unblock_check plat ns sc = (ns, sc) \<and>
      \<not> refill_ready plat ns (snd (refill_unblock_check plat ns sc)))"
proof (intro conjI impI)
  assume "\<not> refill_ready plat ns sc"
  then show "refill_unblock_check plat ns sc = (ns, sc)"
    and "\<not> refill_ready plat ns (snd (refill_unblock_check plat ns sc))"
    by (simp_all add: refill_unblock_check_not_ready)
next
  assume a: "sc_wf sc \<and> scRefillCount sc \<le> scRefillMax sc \<and> scRefillCount sc \<noteq> 0 \<and>
    \<not> isRoundRobin plat sc \<and> refill_ready plat ns sc \<and>
    refill_at_least_min_budget plat sc \<and> amounts_total (refill_list sc) < 2 ^ 64"
  then have r: "rTime (REFILL_HEAD (snd (refill_unblock_check plat ns sc)))
           = ksCurTime ns + kernelWcetTicks plat \<and>
         ksReprogram (fst (refill_unblock_check plat ns sc)) \<and>
         refill_ready plat ns (snd (refill_unblock_check plat ns sc)) \<and>
         refill_sufficient plat (snd (refill_unblock_check plat ns sc)) 0"
    by (intro refill_unblock_check_ready_aux) simp_all
  from r show "rTime (REFILL_HEAD (snd (refill_unblock_check plat ns sc)))
           = ksCurTime ns + kernelWcetTicks plat" by simp
  from r show "ksReprogram (fst (refill_unblock_check plat ns sc))" by simp
  from r show "refill_ready plat ns (snd (refill_unblock_check plat ns sc))" by simp
  from r show "refill_sufficient plat (snd (refill_unblock_check plat ns sc)) 0" by simp
qed

text \<open>
  The coalescing scenario: three refills woken at time 200 merge into \<open>(205, 100)\<close>.
  A head refill that starts at 500, woken at time 0, is not ready and is left alone.
\<close>

theorem refill_unblock_check_ready_sufficient_witness:
  "sc_wf three_refill_sc \<and> scRefillCount three_refill_sc \<le> scRefillMax three_refill_sc \<and>
   scRefillCount three_refill_sc \<noteq> 0 \<and> \<not> isRoundRobin example_plat three_refill_sc \<and>
   refill_ready example_plat (at_time 200) three_refill_sc \<and>
   refill_at_least_min_budget example_plat three_refill_sc \<and>
   amounts_total (refill_list three_refill_sc) < 2 ^ 64 \<and>
   refill_list (snd (refill_unblock_check example_plat (at_time 200) three_refill_sc))
     = [\<lparr>rTime = 205, rAmount = 100\<rparr>] \<and>
   rTime (REFILL_HEAD (snd (refill_unblock_check example_plat (at_time 200) three_refill_sc)))
     = ksCurTime (at_time 200) + kernelWcetTicks example_plat \<and>
   ksReprogram (fst (refill_unblock_check example_plat (at_time 200) three_refill_sc)) \<and>
   refill_ready example_plat (at_time 200)
     (snd (refill_unblock_check example_plat (at_time 200) three_refill_sc)) \<and>
   refill_sufficient example_plat
     (snd (refill_unblock_check example_plat (at_time 200) three_refill_sc)) 0 \<and>
   \<not> refill_ready example_plat (at_time 0) (single_refill_sc 1000 100 500 100) \<and>
   refill_unblock_check example_plat (at_time 0) (single_refill_sc 1000 100 500 100)
     = (at_time 0, single_refill_sc 1000 100 500 100)"
proof -
  have l: "refill_list three_refill_sc =
      [\<lparr>rTime = 0, rAmount = 40\<rparr>, \<lparr>rTime = 50, rAmount = 30\<rparr>, \<lparr>rTime = 90, rAmount = 30\<rparr>]"
    by code_simp
  have h: "sc_wf three_refill_sc" "scRefillCount three_refill_sc \<le> scRefillMax three_refill_sc"
    "scRefillCount three_refill_sc \<noteq> 0" "\<not> isRoundRobin example_plat three_refill_sc"
    by (simp_all add: sc_wf_def three_refill_sc_def example_plat_def)
  have r: "refill_ready example_plat (at_time 200) three_refill_sc"
    by code_simp
  have m: "refill_at_least_min_budget example_plat three_refill_sc"
    by code_simp
  have t: "amounts_total (refill_list three_refill_sc) < 2 ^ 64"
    by (simp add: l)
  have res: "refill_list (snd (refill_unblock_check example_plat (at_time 200) three_refill_sc))
     = [\<lparr>rTime = 205, rAmount = 100\<rparr>]"
    by code_simp
  have n: "\<not> refill_ready example_plat (at_time 0) (single_refill_sc 1000 100 500 100)"
    by code_simp
  note ready_case =
    refill_unblock_check_ready_sufficient[where sc = three_refill_sc and plat = example_plat
      and ns = "at_time 200", THEN conjunct1, rule_format, OF conjI, OF h(1) conjI, OF h(2) conjI,
      OF h(3) conjI, OF h(4) conjI, OF r conjI, OF m t]
  note not_ready_case =
    refill_unblock_check_ready_sufficient[where sc = "single_refill_sc 1000 100 500 100"
      and plat = example_plat and ns = "at_time 0", THEN conjunct2, rule_format, OF n]
  from h r m t res n ready_case not_ready_case show ?thesis by blast
qed

text \<open>A head refill that starts at 500, woken at time 0, is left as it is: not ready.\<close>

theorem refill_unblock_check_not_ready_counterexample:
  "sc_active (single_refill_sc 1000 100 500 100) \<and>
   \<not> isRoundRobin example_plat (single_refill_sc 1000 100 500 100) \<and>
   universal_invariants example_plat (single_refill_sc 1000 100 500 100) \<and>
   \<not> refill_ready example_plat (at_time 0)
        (snd (refill_unblock_check example_plat (at_time 0) (single_refill_sc 1000 100 500 100)))"
  by code_simp

section \<open>Charging and unblocking preserve the invariants\<close>

text \<open>
  Claim C1, as amended.  Let a scheduling context with head index below the capacity
  and a capacity of at most \<open>2 ^ 63\<close> slots satisfy the five universal invariants, as
  the checkers compute them in 64-bit arithmetic, with count at least 1, and let no
  refill of its queue end at or after \<open>2 ^ 64\<close> (\<open>rTime + rAmount\<close> does not wrap).
  For every usage: if \<open>head.time + period + head.amount\<close> stays below \<open>2 ^ 64\<close>, the
  five invariants and count at least 1 hold again after \<open>refill_budget_check\<close>; and if
  \<open>(now + wcet) + budget\<close> stays below \<open>2 ^ 64\<close>, where \<open>now + wcet\<close> is the 64-bit sum
  that the code computes, they hold again after \<open>refill_unblock_check\<close>.
\<close>

theorem budget_check_unblock_check_invariants:
  assumes "sc_wf sc" and "scRefillCount sc \<noteq> 0"
      and "universal_invariants plat sc" and "refills_no_overflow sc"
  shows "(unat (rTime (REFILL_HEAD sc)) + unat (scPeriod sc) + unat (rAmount (REFILL_HEAD sc))
            < 2 ^ 64 \<longrightarrow>
          universal_invariants plat (refill_budget_check plat ns sc usage) \<and>
          scRefillCount (refill_budget_check plat ns sc usage) \<noteq> 0) \<and>
         (unat (ksCurTime ns + kernelWcetTicks plat) + unat (scBudget sc) < 2 ^ 64 \<longrightarrow>
          universal_invariants plat (snd (refill_unblock_check plat ns sc)) \<and>
          scRefillCount (snd (refill_unblock_check plat ns sc)) \<noteq> 0)"
  using budget_check_invariants[OF assms] unblock_check_invariants[OF assms]
  by blast

text \<open>
  The coalescing queue \<open>(0, 40)\<close>, \<open>(50, 30)\<close>, \<open>(90, 30)\<close> with period 1000 and budget
  100, at time 20: charged 30 ticks, and unblocked.
\<close>

theorem budget_check_unblock_check_invariants_witness:
  "sc_wf three_refill_sc \<and> scRefillCount three_refill_sc \<noteq> 0 \<and>
   universal_invariants example_plat three_refill_sc \<and> refills_no_overflow three_refill_sc \<and>
   unat (rTime (REFILL_HEAD three_refill_sc)) + unat (scPeriod three_refill_sc) +
     unat (rAmount (REFILL_HEAD three_refill_sc)) < 2 ^ 64 \<and>
   unat (ksCurTime (at_time 20) + kernelWcetTicks example_plat) + unat (scBudget three_refill_sc) < 2 ^ 64 \<and>
   universal_invariants example_plat (refill_budget_check example_plat (at_time 20) three_refill_sc 30) \<and>
   scRefillCount (refill_budget_check example_plat (at_time 20) three_refill_sc 30) \<noteq> 0 \<and>
   universal_invariants example_plat (snd (refill_unblock_check example_plat (at_time 20) three_refill_sc)) \<and>
   scRefillCount (snd (refill_unblock_check example_plat (at_time 20) three_refill_sc)) \<noteq> 0"
proof -
  have l: "refill_list three_refill_sc =
      [\<lparr>rTime = 0, rAmount = 40\<rparr>, \<lparr>rTime = 50, rAmount = 30\<rparr>, \<lparr>rTime = 90, rAmount = 30\<rparr>]"
    by code_simp
  have hd: "REFILL_HEAD three_refill_sc = \<lparr>rTime = 0, rAmount = 40\<rparr>"
    by (simp add: REFILL_HEAD_def refill_index_def three_refill_sc_def)
  have h: "sc_wf three_refill_sc" "scRefillCount three_refill_sc \<noteq> 0"
    by (simp_all add: sc_wf_def three_refill_sc_def)
  have i: "universal_invariants example_plat three_refill_sc"
    by code_simp
  have n: "refills_no_overflow three_refill_sc"
    by (simp add: refills_no_overflow_def l refill_end_def)
  have b: "unat (rTime (REFILL_HEAD three_refill_sc)) + unat (scPeriod three_refill_sc) +
       unat (rAmount (REFILL_HEAD three_refill_sc)) < 2 ^ 64"
    unfolding hd by (simp add: three_refill_sc_def)
  have u: "unat (ksCurTime (at_time 20) + kernelWcetTicks example_plat) +
       unat (scBudget three_refill_sc) < 2 ^ 64"
    by (simp add: at_time_def example_plat_def three_refill_sc_def)
  note r = budget_check_unblock_check_invariants[OF h i n, where ns = "at_time 20" and usage = 30]
  from h i n b u r[THEN conjunct1, rule_format, OF b] r[THEN conjunct2, rule_format, OF u]
  show ?thesis by blast
qed

text \<open>
  Without the provisos the claim fails: the engine adds times and amounts in unchecked
  64-bit arithmetic.  A single refill \<open>(100, 100)\<close> with budget 100 and period
  \<open>2 ^ 64 - 50\<close> satisfies all five invariants.  Charged 30 ticks at time 100, the head
  becomes \<open>(130, 70)\<close> and the used refill is scheduled at \<open>100 + period\<close>, which wraps to
  50: the queue \<open>(130, 70)\<close>, \<open>(50, 30)\<close> is not ordered.
\<close>

theorem budget_check_wraps_counterexample:
  "universal_invariants example_plat long_period_sc \<and>
   scRefillCount long_period_sc = 1 \<and>
   scRefillHead long_period_sc < scRefillMax long_period_sc \<and>
   \<not> isRoundRobin example_plat long_period_sc \<and>
   refill_list long_period_sc = [\<lparr>rTime = 100, rAmount = 100\<rparr>] \<and>
   refill_list (refill_budget_check example_plat (at_time 100) long_period_sc 30)
     = [\<lparr>rTime = 130, rAmount = 70\<rparr>, \<lparr>rTime = 50, rAmount = 30\<rparr>] \<and>
   \<not> refill_ordered_disjoint (refill_budget_check example_plat (at_time 100) long_period_sc 30) \<and>
   \<not> universal_invariants example_plat
       (refill_budget_check example_plat (at_time 100) long_period_sc 30)"
proof -
  have a1: "universal_invariants example_plat long_period_sc"
    by code_simp
  have a2: "scRefillCount long_period_sc = 1" "scRefillHead long_period_sc < scRefillMax long_period_sc"
    "\<not> isRoundRobin example_plat long_period_sc"
    by (simp_all add: long_period_sc_def single_refill_sc_def example_plat_def)
  have a3: "refill_list long_period_sc = [\<lparr>rTime = 100, rAmount = 100\<rparr>]"
    by code_simp
  have a4: "refill_list (refill_budget_check example_plat (at_time 100) long_period_sc 30)
     = [\<lparr>rTime = 130, rAmount = 70\<rparr>, \<lparr>rTime = 50, rAmount = 30\<rparr>]"
    by code_simp
  have a5: "\<not> refill_ordered_disjoint
      (refill_budget_check example_plat (at_time 100) long_period_sc 30)"
    by code_simp
  then have a6: "\<not> universal_invariants example_plat
       (refill_budget_check example_plat (at_time 100) long_period_sc 30)"
    by (simp add: universal_invariants_def)
  from a1 a2 a3 a4 a5 a6 show ?thesis by blast
qed

end
